theory Spec2Isabelle
  imports Main "HOL-Library.Multiset" "HOL-Library.Sublist"
begin

section \<open>Huffman coding engine of day05-image-compressor/script.js\<close>

text \<open>
  The embedding follows the three classes of the script: \<open>HuffmanNode\<close>, \<open>MinHeap\<close> and
  \<open>HuffmanCoding\<close>. A JavaScript string is a \<open>string\<close>; the symbols of an input are the
  items that \<open>for (const char of data)\<close> yields, one \<open>char\<close> each, and the length of
  an input is the number of its symbols (for text within the Basic Multilingual Plane that
  is what \<open>data.length\<close> counts). Nothing below uses more of a symbol than equality. Bit
  strings are strings over the characters 0 and 1, as in the script. Frequencies are natural
  numbers: the script only ever adds 1 or adds two counts, far below the range where a
  JavaScript number stops being exact. An access to a property of \<open>null\<close>, which makes the
  script throw, is the value \<open>Inl TypeError\<close>.
\<close>

datatype js_error = TypeError

subsection \<open>HuffmanNode\<close>

text \<open>
  One class with four fields; \<open>null\<close> is \<open>None\<close>. The constructor sets both children to
  \<open>null\<close>: \<open>new HuffmanNode(c, f)\<close> is \<open>HuffmanNode c f None None\<close>.
\<close>

datatype node =
  HuffmanNode (char: "char option") (frequency: nat) (left: "node option") (right: "node option")

definition isLeaf :: "node \<Rightarrow> bool" where
  "isLeaf n = (left n = None \<and> right n = None)"

subsection \<open>JavaScript Map\<close>

text \<open>
  A \<open>Map\<close> keeps its entries in insertion order, and \<open>buildHuffmanTree\<close> iterates over one,
  so a map is an association list. \<open>set\<close> on a key already present replaces the value where
  it stands; on a new key it appends. \<open>get\<close> on a missing key is \<open>undefined\<close>, here \<open>None\<close>.
\<close>

type_synonym ('k, 'v) js_map = "('k \<times> 'v) list"

fun map_get :: "('k, 'v) js_map \<Rightarrow> 'k \<Rightarrow> 'v option" where
  "map_get [] k = None"
| "map_get ((k', v) # m) k = (if k' = k then Some v else map_get m k)"

fun map_set :: "('k, 'v) js_map \<Rightarrow> 'k \<Rightarrow> 'v \<Rightarrow> ('k, 'v) js_map" where
  "map_set [] k v = [(k, v)]"
| "map_set ((k', v') # m) k v = (if k' = k then (k, v) # m else (k', v') # map_set m k v)"

subsection \<open>MinHeap\<close>

text \<open>
  The heap is the array \<open>this.heap\<close>. The class reads nothing of an element but its
  \<open>frequency\<close>, so the operations take the reader \<open>fr\<close> of that field and work on any
  element type. Each operation returns the new array. \<open>insert\<close> calls \<open>bubbleUp\<close> at the
  last index and \<open>extractMin\<close> calls \<open>bubbleDown\<close> at index 0 of a non-empty array;
  \<open>bubbleUp\<close> goes from an index to its parent, and \<open>bubbleDown\<close> compares a child index
  with the length before it reads, so every element read lies inside the array.
\<close>

definition swap :: "'e list \<Rightarrow> nat \<Rightarrow> nat \<Rightarrow> 'e list" where
  "swap h i j = h[i := h ! j, j := h ! i]"

function bubbleUp :: "('e \<Rightarrow> nat) \<Rightarrow> 'e list \<Rightarrow> nat \<Rightarrow> 'e list" where
  "bubbleUp fr h index =
     (if index > 0 then
        (let parentIndex = (index - 1) div 2 in
         if fr (h ! index) \<ge> fr (h ! parentIndex) then h
         else bubbleUp fr (swap h index parentIndex) parentIndex)
      else h)"
  by pat_completeness auto
termination
  by (relation "measure (\<lambda>(fr, h, index). index)") auto

function bubbleDown :: "('e \<Rightarrow> nat) \<Rightarrow> 'e list \<Rightarrow> nat \<Rightarrow> 'e list" where
  "bubbleDown fr h index =
     (let leftChild = 2 * index + 1;
          rightChild = 2 * index + 2;
          smallest = (if leftChild < length h \<and> fr (h ! leftChild) < fr (h ! index)
                      then leftChild else index);
          smallest = (if rightChild < length h \<and> fr (h ! rightChild) < fr (h ! smallest)
                      then rightChild else smallest)
      in if smallest = index then h
         else bubbleDown fr (swap h index smallest) smallest)"
  by pat_completeness auto
termination
  by (relation "measure (\<lambda>(fr, h, index). length h - index)")
     (auto simp: swap_def Let_def split: if_splits)

definition insert_heap :: "('e \<Rightarrow> nat) \<Rightarrow> 'e list \<Rightarrow> 'e \<Rightarrow> 'e list" where
  "insert_heap fr h x = bubbleUp fr (h @ [x]) (length (h @ [x]) - 1)"

definition extractMin :: "('e \<Rightarrow> nat) \<Rightarrow> 'e list \<Rightarrow> 'e option \<times> 'e list" where
  "extractMin fr h =
     (if length h = 0 then (None, h)
      else if length h = 1 then (Some (last h), butlast h)
      else (let m = h ! 0;
                h' = (butlast h)[0 := last h]
            in (Some m, bubbleDown fr h' 0)))"

declare bubbleUp.simps [simp del] bubbleDown.simps [simp del]

text \<open>Neither sifting loop changes the length of the array.\<close>

lemma length_swap [simp]: "length (swap h i j) = length h"
  by (simp add: swap_def)

lemma length_bubbleUp [simp]: "length (bubbleUp fr h index) = length h"
proof (induction fr h index rule: bubbleUp.induct)
  case (1 fr h index)
  show ?case
    by (subst bubbleUp.simps) (use 1 in \<open>simp add: Let_def\<close>)
qed

lemma length_bubbleDown [simp]: "length (bubbleDown fr h index) = length h"
proof (induction fr h index rule: bubbleDown.induct)
  case (1 fr h index)
  show ?case
    by (subst bubbleDown.simps) (use 1 in \<open>simp add: Let_def\<close>)
qed

lemma length_insert_heap [simp]: "length (insert_heap fr h x) = Suc (length h)"
  by (simp add: insert_heap_def)

lemma length_extractMin [simp]: "length (snd (extractMin fr h)) = length h - 1"
  by (simp add: extractMin_def Let_def)

subsection \<open>HuffmanCoding\<close>

record HuffmanCoding =
  root :: "node option"
  codes :: "(char option, string) js_map"
  frequencies :: "(char, nat) js_map"

definition new_HuffmanCoding :: HuffmanCoding where
  "new_HuffmanCoding = \<lparr>root = None, codes = [], frequencies = []\<rparr>"

definition buildFrequencyMap :: "string \<Rightarrow> HuffmanCoding \<Rightarrow> HuffmanCoding" where
  "buildFrequencyMap data this =
     this\<lparr>frequencies :=
       fold (\<lambda>c m. map_set m c ((case map_get m c of None \<Rightarrow> 0 | Some v \<Rightarrow> v) + 1)) data []\<rparr>"

text \<open>
  The merging loop of \<open>buildHuffmanTree\<close>. \<open>extractMin\<close> may return \<open>null\<close>, and
  \<open>left.frequency\<close> on \<open>null\<close> throws.
\<close>

function buildHuffmanTree_loop :: "node list \<Rightarrow> js_error + node list" where
  "buildHuffmanTree_loop heap =
     (if length heap > 1 then
        (case extractMin frequency heap of (l, heap1) \<Rightarrow>
         case extractMin frequency heap1 of (r, heap2) \<Rightarrow>
           (case l of None \<Rightarrow> Inl TypeError
            | Some left' \<Rightarrow>
              (case r of None \<Rightarrow> Inl TypeError
               | Some right' \<Rightarrow>
                 (let parent = HuffmanNode None (frequency left' + frequency right')
                                 (Some left') (Some right')
                  in buildHuffmanTree_loop (insert_heap frequency heap2 parent)))))
      else Inr heap)"
  by pat_completeness auto
termination
proof (relation "measure length", goal_cases)
  case 1
  show ?case by simp
next
  case (2 heap l heap1 r heap2 left' right' parent)
  have "heap1 = snd (extractMin frequency heap)" "heap2 = snd (extractMin frequency heap1)"
    using 2 by (simp_all add: prod_eq_iff)
  then have "length heap2 = length heap - 1 - 1"
    by simp
  with 2(1) show ?case
    by simp
qed

declare buildHuffmanTree_loop.simps [simp del]

definition buildHuffmanTree :: "HuffmanCoding \<Rightarrow> js_error + HuffmanCoding" where
  "buildHuffmanTree this =
     (let heap = fold (\<lambda>(c, freq) heap. insert_heap frequency heap (HuffmanNode (Some c) freq None None))
                   (frequencies this) []
      in case buildHuffmanTree_loop heap of
           Inl e \<Rightarrow> Inl e
         | Inr heap' \<Rightarrow> Inr (this\<lparr>root := fst (extractMin frequency heap')\<rparr>))"

text \<open>
  \<open>generateCodes(node, code)\<close> writes into \<open>this.codes\<close>; the model threads that map.
  \<open>code || '0'\<close> is \<open>'0'\<close> exactly when \<open>code\<close> is the empty string.
\<close>

fun generateCodes :: "node option \<Rightarrow> string \<Rightarrow> (char option, string) js_map \<Rightarrow> (char option, string) js_map" where
  "generateCodes None code cs = cs"
| "generateCodes (Some (HuffmanNode c f l r)) code cs =
     (if l = None \<and> r = None then map_set cs c (if code = [] then ''0'' else code)
      else generateCodes r (code @ ''1'') (generateCodes l (code @ ''0'') cs))"

text \<open>String concatenation with \<open>undefined\<close> or \<open>null\<close> appends the word.\<close>

definition encode :: "string \<Rightarrow> HuffmanCoding \<Rightarrow> string" where
  "encode data this =
     fold (\<lambda>c encoded. encoded @ (case map_get (codes this) (Some c) of
                                     None \<Rightarrow> ''undefined'' | Some code \<Rightarrow> code)) data []"

fun decode_loop :: "node option \<Rightarrow> string \<Rightarrow> node option \<Rightarrow> string \<Rightarrow> js_error + string" where
  "decode_loop rt [] current decoded = Inr decoded"
| "decode_loop rt (b # encoded) current decoded =
     (case current of
        None \<Rightarrow> Inl TypeError
      | Some cur \<Rightarrow>
          (case (if b = CHR ''0'' then left cur else right cur) of
             None \<Rightarrow> Inl TypeError
           | Some current' \<Rightarrow>
               if isLeaf current'
               then decode_loop rt encoded rt
                      (decoded @ (case char current' of None \<Rightarrow> ''null'' | Some c \<Rightarrow> [c]))
               else decode_loop rt encoded (Some current') decoded))"

definition decode :: "string \<Rightarrow> HuffmanCoding \<Rightarrow> js_error + string" where
  "decode encoded this = decode_loop (root this) encoded (root this) []"

text \<open>
  The object that \<open>compress\<close> returns. \<open>compressionRatio\<close> and \<open>spaceSaved\<close> are
  floating-point text and are left out; nothing below depends on them.
\<close>

record compress_result =
  original :: string
  encoded :: string
  originalBits :: nat
  compressedBits :: nat
  result_frequencies :: "(char, nat) js_map"
  result_codes :: "(char option, string) js_map"
  tree :: "node option"

datatype outcome = Failure (error: string) | Success (result: compress_result)

definition compress :: "string \<Rightarrow> HuffmanCoding \<Rightarrow> js_error + (outcome \<times> HuffmanCoding)" where
  "compress data this =
     (if length data = 0 then Inr (Failure ''No data to compress'', this)
      else
        (case buildHuffmanTree (buildFrequencyMap data this) of
           Inl e \<Rightarrow> Inl e
         | Inr this1 \<Rightarrow>
             (let this2 = this1\<lparr>codes := generateCodes (root this1) [] []\<rparr>;
                  enc = encode data this2
              in Inr (Success \<lparr>original = data, encoded = enc,
                                originalBits = length data * 8,
                                compressedBits = length enc,
                                result_frequencies = frequencies this2,
                                result_codes = codes this2,
                                tree = root this2\<rparr>, this2))))"

subsection \<open>The same classes over an object store\<close>

text \<open>
  Where a property depends on which objects are shared, objects live in a store and are
  named by their address. The store keeps the \<open>HuffmanNode\<close> objects, the \<open>Map\<close> objects
  that count frequencies and the \<open>Map\<close> objects that hold codes, each kind in a list
  indexed by address; \<open>new\<close> appends to the list. \<open>HuffmanCoding_ref\<close> is the coder
  object: its three fields are references. The functions below are the methods of
  \<open>HuffmanCoding\<close> once more, reading and writing the store where the script reads and
  writes objects; the heap of \<open>buildHuffmanTree\<close> holds addresses of nodes. The recursion
  of \<open>generateCodes\<close> follows references, so it is a partial function: \<open>None\<close> stands for
  a call that does not return.
\<close>

record node_obj =
  n_char :: "char option"
  n_frequency :: nat
  n_left :: "nat option"
  n_right :: "nat option"

record store =
  node_store :: "node_obj list"
  freq_store :: "(char, nat) js_map list"
  code_store :: "(char option, string) js_map list"

record HuffmanCoding_ref =
  root_ref :: "nat option"
  codes_ref :: nat
  frequencies_ref :: nat

definition frequency_at :: "store \<Rightarrow> nat \<Rightarrow> nat" where
  "frequency_at s a = n_frequency (node_store s ! a)"

definition new_HuffmanNode :: "char option \<Rightarrow> nat \<Rightarrow> store \<Rightarrow> nat \<times> store" where
  "new_HuffmanNode c f s =
     (length (node_store s),
      s\<lparr>node_store := node_store s @ [\<lparr>n_char = c, n_frequency = f, n_left = None, n_right = None\<rparr>]\<rparr>)"

definition set_left :: "nat \<Rightarrow> nat option \<Rightarrow> store \<Rightarrow> store" where
  "set_left a v s = s\<lparr>node_store := (node_store s)[a := (node_store s ! a)\<lparr>n_left := v\<rparr>]\<rparr>"

definition set_right :: "nat \<Rightarrow> nat option \<Rightarrow> store \<Rightarrow> store" where
  "set_right a v s = s\<lparr>node_store := (node_store s)[a := (node_store s ! a)\<lparr>n_right := v\<rparr>]\<rparr>"

definition new_HuffmanCoding_st :: "store \<Rightarrow> HuffmanCoding_ref \<times> store" where
  "new_HuffmanCoding_st s =
     (\<lparr>root_ref = None, codes_ref = length (code_store s), frequencies_ref = length (freq_store s)\<rparr>,
      s\<lparr>freq_store := freq_store s @ [[]], code_store := code_store s @ [[]]\<rparr>)"

definition buildFrequencyMap_st :: "string \<Rightarrow> HuffmanCoding_ref \<Rightarrow> store \<Rightarrow> store" where
  "buildFrequencyMap_st data this s =
     fold (\<lambda>c s. s\<lparr>freq_store := (freq_store s)[frequencies_ref this :=
                      map_set (freq_store s ! frequencies_ref this) c
                        ((case map_get (freq_store s ! frequencies_ref this) c of
                            None \<Rightarrow> 0 | Some v \<Rightarrow> v) + 1)]\<rparr>)
       data (s\<lparr>freq_store := (freq_store s)[frequencies_ref this := []]\<rparr>)"

function buildHuffmanTree_loop_st :: "nat list \<times> store \<Rightarrow> js_error + nat list \<times> store" where
  "buildHuffmanTree_loop_st (heap, s) =
     (if length heap > 1 then
        (case extractMin (frequency_at s) heap of (l, heap1) \<Rightarrow>
         case extractMin (frequency_at s) heap1 of (r, heap2) \<Rightarrow>
           (case l of None \<Rightarrow> Inl TypeError
            | Some left' \<Rightarrow>
              (case r of None \<Rightarrow> Inl TypeError
               | Some right' \<Rightarrow>
                 (case new_HuffmanNode None (frequency_at s left' + frequency_at s right') s of
                    (parent, s1) \<Rightarrow>
                      (let s2 = set_left parent (Some left') s1;
                           s3 = set_right parent (Some right') s2
                       in buildHuffmanTree_loop_st (insert_heap (frequency_at s3) heap2 parent, s3))))))
      else Inr (heap, s))"
  by pat_completeness auto
termination
proof (relation "measure (\<lambda>(heap, s). length heap)", goal_cases)
  case 1
  show ?case by simp
next
  case (2 heap s l heap1 r heap2)
  have "heap1 = snd (extractMin (frequency_at s) heap)"
       "heap2 = snd (extractMin (frequency_at s) heap1)"
    using 2 by (simp_all add: prod_eq_iff)
  then have "length heap2 = length heap - 1 - 1"
    by simp
  with 2(1) show ?case
    by simp
qed

declare buildHuffmanTree_loop_st.simps [simp del]

definition buildHuffmanTree_st :: "HuffmanCoding_ref \<Rightarrow> store \<Rightarrow> js_error + HuffmanCoding_ref \<times> store" where
  "buildHuffmanTree_st this s =
     (let start = fold (\<lambda>(c, freq) (heap, s).
                          case new_HuffmanNode (Some c) freq s of
                            (a, s') \<Rightarrow> (insert_heap (frequency_at s') heap a, s'))
                    (freq_store s ! frequencies_ref this) ([], s)
      in case buildHuffmanTree_loop_st start of
           Inl e \<Rightarrow> Inl e
         | Inr (heap', s') \<Rightarrow> Inr (this\<lparr>root_ref := fst (extractMin (frequency_at s') heap')\<rparr>, s'))"

partial_function (option) generateCodes_st ::
  "HuffmanCoding_ref \<Rightarrow> nat option \<Rightarrow> string \<Rightarrow> store \<Rightarrow> store option" where
  "generateCodes_st this node code s =
     (case node of
        None \<Rightarrow> Some s
      | Some a \<Rightarrow>
          if n_left (node_store s ! a) = None \<and> n_right (node_store s ! a) = None
          then Some (s\<lparr>code_store := (code_store s)[codes_ref this :=
                         map_set (code_store s ! codes_ref this) (n_char (node_store s ! a))
                           (if code = [] then ''0'' else code)]\<rparr>)
          else Option.bind (generateCodes_st this (n_left (node_store s ! a)) (code @ ''0'') s)
                 (\<lambda>s1. generateCodes_st this (n_right (node_store s1 ! a)) (code @ ''1'') s1))"

declare generateCodes_st.simps [code]

definition encode_st :: "string \<Rightarrow> HuffmanCoding_ref \<Rightarrow> store \<Rightarrow> string" where
  "encode_st data this s =
     fold (\<lambda>c encoded. encoded @ (case map_get (code_store s ! codes_ref this) (Some c) of
                                     None \<Rightarrow> ''undefined'' | Some code \<Rightarrow> code)) data []"

text \<open>
  The object that \<open>compress\<close> returns holds two fresh maps, \<open>new Map(this.frequencies)\<close>
  and \<open>new Map(this.codes)\<close>, and the reference \<open>this.root\<close>.
\<close>

record compress_result_st =
  original_st :: string
  encoded_st :: string
  originalBits_st :: nat
  compressedBits_st :: nat
  frequencies_at :: nat
  codes_at :: nat
  tree_at :: "nat option"

datatype outcome_st = Failure_st string | Success_st compress_result_st

definition compress_st ::
  "string \<Rightarrow> HuffmanCoding_ref \<Rightarrow> store
     \<Rightarrow> (js_error + outcome_st \<times> HuffmanCoding_ref \<times> store) option" where
  "compress_st data this s =
     (if length data = 0 then Some (Inr (Failure_st ''No data to compress'', this, s))
      else
        (case buildHuffmanTree_st this (buildFrequencyMap_st data this s) of
           Inl e \<Rightarrow> Some (Inl e)
         | Inr (this1, s1) \<Rightarrow>
             Option.bind
               (generateCodes_st this1 (root_ref this1) []
                  (s1\<lparr>code_store := (code_store s1)[codes_ref this1 := []]\<rparr>))
               (\<lambda>s2.
                  let enc = encode_st data this1 s2;
                      fa = length (freq_store s2);
                      s3 = s2\<lparr>freq_store := freq_store s2 @ [freq_store s2 ! frequencies_ref this1]\<rparr>;
                      ca = length (code_store s3);
                      s4 = s3\<lparr>code_store := code_store s3 @ [code_store s3 ! codes_ref this1]\<rparr>
                  in Some (Inr (Success_st \<lparr>original_st = data, encoded_st = enc,
                                   originalBits_st = length data * 8,
                                   compressedBits_st = length enc,
                                   frequencies_at = fa, codes_at = ca,
                                   tree_at = root_ref this1\<rparr>, this1, s4)))))"

definition empty_store :: store where
  "empty_store = \<lparr>node_store = [], freq_store = [], code_store = []\<rparr>"

subsection \<open>The decoder the specification describes\<close>

text \<open>
  Written from the specification's section on the decoder, for comparison with \<open>decode\<close>:
  a cursor starts at the root; each bit moves it to the left child on 0 and to the right
  child otherwise; landing on a leaf emits the symbol and resets the cursor; a missing child
  is a malformed stream, and so is a stream that ends while the cursor is below the root.
  The two ways of being malformed are kept apart, and the second records what had been
  emitted when the stream ended.
\<close>

datatype cursor_state = AtRoot | Traversing

datatype malformed = MissingChild | EndsMidTraversal string

fun spec_decode_loop ::
  "node option \<Rightarrow> string \<Rightarrow> cursor_state \<Rightarrow> node option \<Rightarrow> string \<Rightarrow> malformed + string" where
  "spec_decode_loop rt [] st cursor emitted =
     (if st = AtRoot then Inr emitted else Inl (EndsMidTraversal emitted))"
| "spec_decode_loop rt (b # bs) st cursor emitted =
     (case cursor of
        None \<Rightarrow> Inl MissingChild
      | Some cur \<Rightarrow>
          (case (if b = CHR ''0'' then left cur else right cur) of
             None \<Rightarrow> Inl MissingChild
           | Some child \<Rightarrow>
               if isLeaf child
               then spec_decode_loop rt bs AtRoot rt
                      (emitted @ (case char child of None \<Rightarrow> ''null'' | Some c \<Rightarrow> [c]))
               else spec_decode_loop rt bs Traversing (Some child) emitted))"

definition spec_decode :: "string \<Rightarrow> node option \<Rightarrow> malformed + string" where
  "spec_decode bits rt = spec_decode_loop rt bits AtRoot rt []"

subsection \<open>Notions for stating the properties\<close>

text \<open>
  \<open>nodes\<close> lists every node object reachable from a node, \<open>leaf_nodes\<close> those for which
  \<open>isLeaf()\<close> holds and \<open>internal_nodes\<close> the others. \<open>proper\<close> holds of the trees that
  \<open>buildHuffmanTree\<close> makes: a leaf carries a symbol, any other node carries none, has both
  children and weighs what they weigh together. \<open>paths\<close> pairs each leaf with the bits that
  lead to it from the root, 0 for left and 1 for right.
\<close>

fun nodes :: "node \<Rightarrow> node list" where
  "nodes (HuffmanNode c f l r) =
     HuffmanNode c f l r #
       (case l of None \<Rightarrow> [] | Some n \<Rightarrow> nodes n) @ (case r of None \<Rightarrow> [] | Some n \<Rightarrow> nodes n)"

fun proper :: "node \<Rightarrow> bool" where
  "proper (HuffmanNode c f None None) = (c \<noteq> None)"
| "proper (HuffmanNode c f (Some l) (Some r)) =
     (c = None \<and> f = frequency l + frequency r \<and> proper l \<and> proper r)"
| "proper (HuffmanNode c f (Some l) None) = False"
| "proper (HuffmanNode c f None (Some r)) = False"

fun paths :: "node \<Rightarrow> (node \<times> string) list" where
  "paths (HuffmanNode c f l r) =
     (if l = None \<and> r = None then [(HuffmanNode c f l r, [])]
      else (case l of None \<Rightarrow> [] | Some n \<Rightarrow> map (\<lambda>(x, p). (x, CHR ''0'' # p)) (paths n)) @
           (case r of None \<Rightarrow> [] | Some n \<Rightarrow> map (\<lambda>(x, p). (x, CHR ''1'' # p)) (paths n)))"

definition leaf_nodes :: "node \<Rightarrow> node list" where
  "leaf_nodes t = filter isLeaf (nodes t)"

definition internal_nodes :: "node \<Rightarrow> node list" where
  "internal_nodes t = filter (\<lambda>n. \<not> isLeaf n) (nodes t)"

text \<open>
  \<open>count_step\<close> is the body of the loop of \<open>buildFrequencyMap\<close>, \<open>new_leaf\<close> the leaf that
  \<open>buildHuffmanTree\<close> creates for an entry of the frequency map, \<open>forest_leaves\<close> the leaves
  of all trees in a heap, and \<open>code_or_0\<close> the expression \<open>code || '0'\<close>.
\<close>

definition count_step :: "char \<Rightarrow> (char, nat) js_map \<Rightarrow> (char, nat) js_map" where
  "count_step c m = map_set m c ((case map_get m c of None \<Rightarrow> 0 | Some v \<Rightarrow> v) + 1)"

definition new_leaf :: "char \<times> nat \<Rightarrow> node" where
  "new_leaf e = HuffmanNode (Some (fst e)) (snd e) None None"

definition forest_leaves :: "node list \<Rightarrow> node multiset" where
  "forest_leaves h = (\<Sum>n\<in>#mset h. mset (leaf_nodes n))"

definition code_or_0 :: "string \<Rightarrow> string" where
  "code_or_0 code = (if code = [] then ''0'' else code)"

text \<open>
  \<open>heap_ok\<close> is the ordering of a binary min-heap laid out in an array: no element has
  a larger frequency than its children at 2i+1 and 2i+2. \<open>run_ops\<close> applies a sequence of
  \<open>insert\<close> and \<open>extractMin\<close> calls to a heap and collects what the extractions return.
  \<open>heap_up\<close> and \<open>heap_down\<close> are the ordering with one position left open, as it is while
  \<open>bubbleUp\<close> and \<open>bubbleDown\<close> run; \<open>smallest_of\<close> is the choice that one round of
  \<open>bubbleDown\<close> makes.
\<close>

definition heap_ok :: "('e \<Rightarrow> nat) \<Rightarrow> 'e list \<Rightarrow> bool" where
  "heap_ok fr h \<longleftrightarrow>
     (\<forall>i<length h.
        (2 * i + 1 < length h \<longrightarrow> fr (h ! i) \<le> fr (h ! (2 * i + 1))) \<and>
        (2 * i + 2 < length h \<longrightarrow> fr (h ! i) \<le> fr (h ! (2 * i + 2))))"

datatype 'e heap_op = Insert 'e | ExtractMin

fun run_ops :: "('e \<Rightarrow> nat) \<Rightarrow> 'e heap_op list \<Rightarrow> 'e list \<times> 'e list \<Rightarrow> 'e list \<times> 'e list" where
  "run_ops fr [] (h, out) = (h, out)"
| "run_ops fr (Insert x # ops) (h, out) = run_ops fr ops (insert_heap fr h x, out)"
| "run_ops fr (ExtractMin # ops) (h, out) =
     (case extractMin fr h of
        (None, h') \<Rightarrow> run_ops fr ops (h', out)
      | (Some m, h') \<Rightarrow> run_ops fr ops (h', out @ [m]))"

fun inserted :: "'e heap_op list \<Rightarrow> 'e list" where
  "inserted [] = []"
| "inserted (Insert x # ops) = x # inserted ops"
| "inserted (ExtractMin # ops) = inserted ops"

definition parent_index :: "nat \<Rightarrow> nat" where
  "parent_index i = (i - 1) div 2"

definition heap_up :: "('e \<Rightarrow> nat) \<Rightarrow> 'e list \<Rightarrow> nat \<Rightarrow> bool" where
  "heap_up fr h k \<longleftrightarrow>
     (\<forall>i<length h. 0 < i \<longrightarrow> i \<noteq> k \<longrightarrow> fr (h ! parent_index i) \<le> fr (h ! i)) \<and>
     (\<forall>i<length h. 0 < i \<longrightarrow> parent_index i = k \<longrightarrow> 0 < k \<longrightarrow> fr (h ! parent_index k) \<le> fr (h ! i))"

definition heap_down :: "('e \<Rightarrow> nat) \<Rightarrow> 'e list \<Rightarrow> nat \<Rightarrow> bool" where
  "heap_down fr h k \<longleftrightarrow>
     (\<forall>i<length h. 0 < i \<longrightarrow> parent_index i \<noteq> k \<longrightarrow> fr (h ! parent_index i) \<le> fr (h ! i)) \<and>
     (\<forall>i<length h. 0 < i \<longrightarrow> parent_index i = k \<longrightarrow> 0 < k \<longrightarrow> fr (h ! parent_index k) \<le> fr (h ! i))"

definition smallest_of :: "('e \<Rightarrow> nat) \<Rightarrow> 'e list \<Rightarrow> nat \<Rightarrow> nat" where
  "smallest_of fr h index =
     (let leftChild = 2 * index + 1;
          rightChild = 2 * index + 2;
          smallest = (if leftChild < length h \<and> fr (h ! leftChild) < fr (h ! index)
                      then leftChild else index)
      in if rightChild < length h \<and> fr (h ! rightChild) < fr (h ! smallest)
         then rightChild else smallest)"

text \<open>\<open>show_char\<close> is the text that \<open>decoded += current.char\<close> appends.\<close>

definition show_char :: "char option \<Rightarrow> string" where
  "show_char c = (case c of None \<Rightarrow> ''null'' | Some x \<Rightarrow> [x])"

text \<open>
  \<open>read_tree\<close> reads the tree below an address out of the store. \<open>closed\<close> says that
  the children of every node were allocated before it; \<open>wf_state\<close> that the two maps of the
  coder exist and the nodes are closed. \<open>extends this s s'\<close> says what a call may do to the
  store: add objects, and write to the two maps of the coder; every other object that
  existed keeps its contents. \<open>codes_only\<close> and \<open>tree_inv\<close> are the corresponding
  statements for \<open>generateCodes\<close> and for the loops of \<open>buildHuffmanTree\<close>. The
  \<open>example\<close> constants are the states of one coder before and after two calls.
\<close>

function read_tree :: "node_obj list \<Rightarrow> nat \<Rightarrow> node" where
  "read_tree ns a =
     HuffmanNode (n_char (ns ! a)) (n_frequency (ns ! a))
       (case n_left (ns ! a) of None \<Rightarrow> None | Some b \<Rightarrow> if b < a then Some (read_tree ns b) else None)
       (case n_right (ns ! a) of None \<Rightarrow> None | Some b \<Rightarrow> if b < a then Some (read_tree ns b) else None)"
  by pat_completeness auto
termination
  by (relation "measure snd") auto

declare read_tree.simps [simp del]

definition closed :: "node_obj list \<Rightarrow> bool" where
  "closed ns \<longleftrightarrow>
     (\<forall>a<length ns. (\<forall>b. n_left (ns ! a) = Some b \<longrightarrow> b < a) \<and>
                      (\<forall>b. n_right (ns ! a) = Some b \<longrightarrow> b < a))"

definition wf_state :: "HuffmanCoding_ref \<Rightarrow> store \<Rightarrow> bool" where
  "wf_state this s \<longleftrightarrow>
     frequencies_ref this < length (freq_store s) \<and> codes_ref this < length (code_store s) \<and>
     closed (node_store s)"

definition extends :: "HuffmanCoding_ref \<Rightarrow> store \<Rightarrow> store \<Rightarrow> bool" where
  "extends this s s' \<longleftrightarrow>
     prefix (node_store s) (node_store s') \<and>
     length (freq_store s) \<le> length (freq_store s') \<and>
     (\<forall>a<length (freq_store s). a \<noteq> frequencies_ref this \<longrightarrow> freq_store s' ! a = freq_store s ! a) \<and>
     length (code_store s) \<le> length (code_store s') \<and>
     (\<forall>a<length (code_store s). a \<noteq> codes_ref this \<longrightarrow> code_store s' ! a = code_store s ! a)"

definition codes_only :: "HuffmanCoding_ref \<Rightarrow> store \<Rightarrow> store \<Rightarrow> bool" where
  "codes_only this s s' \<longleftrightarrow>
     node_store s' = node_store s \<and> freq_store s' = freq_store s \<and>
     length (code_store s') = length (code_store s) \<and>
     (\<forall>a. a \<noteq> codes_ref this \<longrightarrow> code_store s' ! a = code_store s ! a)"

definition tree_inv :: "store \<Rightarrow> nat list \<times> store \<Rightarrow> bool" where
  "tree_inv s0 hs \<longleftrightarrow>
     prefix (node_store s0) (node_store (snd hs)) \<and>
     freq_store (snd hs) = freq_store s0 \<and> code_store (snd hs) = code_store s0 \<and>
     (\<forall>a\<in>set (fst hs). a < length (node_store (snd hs))) \<and>
     closed (node_store (snd hs))"

definition example_this :: HuffmanCoding_ref where
  "example_this = \<lparr>root_ref = None, codes_ref = 0, frequencies_ref = 0\<rparr>"

definition example_store0 :: store where
  "example_store0 = \<lparr>node_store = [], freq_store = [[]], code_store = [[]]\<rparr>"

definition example_nodes1 :: "node_obj list" where
  "example_nodes1 =
     [\<lparr>n_char = Some CHR ''A'', n_frequency = 2, n_left = None, n_right = None\<rparr>,
      \<lparr>n_char = Some CHR ''B'', n_frequency = 3, n_left = None, n_right = None\<rparr>,
      \<lparr>n_char = Some CHR ''C'', n_frequency = 4, n_left = None, n_right = None\<rparr>,
      \<lparr>n_char = None, n_frequency = 5, n_left = Some 0, n_right = Some 1\<rparr>,
      \<lparr>n_char = None, n_frequency = 9, n_left = Some 2, n_right = Some 3\<rparr>]"

definition example_store1 :: store where
  "example_store1 =
     \<lparr>node_store = example_nodes1,
        freq_store = [[(CHR ''A'', 2), (CHR ''B'', 3), (CHR ''C'', 4)],
                      [(CHR ''A'', 2), (CHR ''B'', 3), (CHR ''C'', 4)]],
        code_store = [[(Some CHR ''C'', ''0''), (Some CHR ''A'', ''10''), (Some CHR ''B'', ''11'')],
                      [(Some CHR ''C'', ''0''), (Some CHR ''A'', ''10''), (Some CHR ''B'', ''11'')]]\<rparr>"

definition example_store2 :: store where
  "example_store2 =
     \<lparr>node_store = example_nodes1 @
          [\<lparr>n_char = Some CHR ''X'', n_frequency = 2, n_left = None, n_right = None\<rparr>,
           \<lparr>n_char = Some CHR ''Y'', n_frequency = 1, n_left = None, n_right = None\<rparr>,
           \<lparr>n_char = None, n_frequency = 3, n_left = Some 6, n_right = Some 5\<rparr>],
        freq_store = [[(CHR ''X'', 2), (CHR ''Y'', 1)],
                      [(CHR ''A'', 2), (CHR ''B'', 3), (CHR ''C'', 4)],
                      [(CHR ''X'', 2), (CHR ''Y'', 1)]],
        code_store = [[(Some CHR ''Y'', ''0''), (Some CHR ''X'', ''1'')],
                      [(Some CHR ''C'', ''0''), (Some CHR ''A'', ''10''), (Some CHR ''B'', ''11'')],
                      [(Some CHR ''Y'', ''0''), (Some CHR ''X'', ''1'')]]\<rparr>"

section \<open>Properties\<close>

subsection \<open>Map operations\<close>

lemma map_get_map_set: "map_get (map_set m k v) k' = (if k' = k then Some v else map_get m k')"
  by (induction m) auto

lemma keys_map_set: "map fst (map_set m k v) = (if k \<in> set (map fst m) then map fst m else map fst m @ [k])"
  by (induction m) force+

subsection \<open>The heap operations keep the elements\<close>

lemma mset_swap_heap: "i < length h \<Longrightarrow> j < length h \<Longrightarrow> mset (swap h i j) = mset h"
  by (simp add: swap_def mset_swap)

lemma mset_bubbleUp: "index < length h \<Longrightarrow> mset (bubbleUp fr h index) = mset h"
proof (induction fr h index rule: bubbleUp.induct)
  case (1 fr h index)
  show ?case
    by (subst bubbleUp.simps) (use 1 in \<open>auto simp: Let_def mset_swap_heap\<close>)
qed

lemma mset_bubbleDown: "mset (bubbleDown fr h index) = mset h"
proof (induction fr h index rule: bubbleDown.induct)
  case (1 fr h index)
  show ?case
    by (subst bubbleDown.simps) (use 1 in \<open>auto simp: Let_def mset_swap_heap\<close>)
qed

lemma mset_insert_heap: "mset (insert_heap fr h x) = add_mset x (mset h)"
  by (simp add: insert_heap_def mset_bubbleUp)

lemma mset_extractMin:
  assumes "h \<noteq> []"
  shows "\<exists>m h'. extractMin fr h = (Some m, h') \<and> mset h = add_mset m (mset h')"
proof (cases h)
  case Nil with assms show ?thesis by simp
next
  case (Cons x xs)
  show ?thesis
  proof (cases xs rule: rev_cases)
    case Nil
    with Cons show ?thesis by (simp add: extractMin_def)
  next
    case (snoc ys y)
    with Cons show ?thesis by (simp add: extractMin_def Let_def mset_bubbleDown butlast_append)
  qed
qed

subsection \<open>The merging loop\<close>

lemma extractMin_Nil [simp]: "extractMin fr [] = (None, [])"
  by (simp add: extractMin_def)

lemma extractMin_single [simp]: "extractMin fr [x] = (Some x, [])"
  by (simp add: extractMin_def)

lemma loop_stop: "length h \<le> 1 \<Longrightarrow> buildHuffmanTree_loop h = Inr h"
  by (subst buildHuffmanTree_loop.simps) simp

lemma loop_step:
  assumes "1 < length h"
  shows "\<exists>l h1 r h2. extractMin frequency h = (Some l, h1) \<and> extractMin frequency h1 = (Some r, h2) \<and>
           mset h = add_mset l (mset h1) \<and> mset h1 = add_mset r (mset h2) \<and>
           buildHuffmanTree_loop h =
             buildHuffmanTree_loop (insert_heap frequency h2
               (HuffmanNode None (frequency l + frequency r) (Some l) (Some r)))"
proof -
  from assms have "h \<noteq> []" by auto
  then obtain l h1 where 1: "extractMin frequency h = (Some l, h1)" "mset h = add_mset l (mset h1)"
    using mset_extractMin by blast
  have "length h1 = length h - 1"
    using length_extractMin [of frequency h] 1 by simp
  with assms have "h1 \<noteq> []" by auto
  then obtain r h2 where 2: "extractMin frequency h1 = (Some r, h2)" "mset h1 = add_mset r (mset h2)"
    using mset_extractMin by blast
  show ?thesis
    using assms 1 2 by (subst buildHuffmanTree_loop.simps) (simp add: Let_def)
qed

lemma loop_rule:
  assumes "I h"
    and "\<And>h l r h2. I h \<Longrightarrow> 1 < length h \<Longrightarrow> mset h = add_mset l (add_mset r (mset h2)) \<Longrightarrow>
           I (insert_heap frequency h2 (HuffmanNode None (frequency l + frequency r) (Some l) (Some r)))"
  shows "\<exists>h'. buildHuffmanTree_loop h = Inr h' \<and> I h' \<and> length h' \<le> 1"
  using assms(1)
proof (induction "length h" arbitrary: h rule: less_induct)
  case less
  show ?case
  proof (cases "1 < length h")
    case False
    then show ?thesis using less.prems by (simp add: loop_stop)
  next
    case True
    from loop_step [OF True] obtain l h1 r h2 where
      s: "extractMin frequency h = (Some l, h1)" "extractMin frequency h1 = (Some r, h2)"
         "mset h = add_mset l (mset h1)" "mset h1 = add_mset r (mset h2)"
         "buildHuffmanTree_loop h = buildHuffmanTree_loop (insert_heap frequency h2
               (HuffmanNode None (frequency l + frequency r) (Some l) (Some r)))"
      by blast
    let ?h = "insert_heap frequency h2 (HuffmanNode None (frequency l + frequency r) (Some l) (Some r))"
    have "size (mset h) = Suc (Suc (size (mset h2)))"
      using s(3,4) by simp
    then have len: "length ?h < length h"
      by simp
    have "I ?h"
      using assms(2) [OF less.prems True] s(3,4) by simp
    from less.hyps [OF len this] s(5) show ?thesis
      by simp
  qed
qed

subsection \<open>Proper trees\<close>



lemma leaf_nodes_leaf [simp]: "leaf_nodes (HuffmanNode c f None None) = [HuffmanNode c f None None]"
  by (simp add: leaf_nodes_def isLeaf_def)

lemma leaf_nodes_parent [simp]:
  "leaf_nodes (HuffmanNode c f (Some l) (Some r)) = leaf_nodes l @ leaf_nodes r"
  by (simp add: leaf_nodes_def isLeaf_def)

lemma internal_nodes_leaf [simp]: "internal_nodes (HuffmanNode c f None None) = []"
  by (simp add: internal_nodes_def isLeaf_def)

lemma internal_nodes_parent [simp]:
  "internal_nodes (HuffmanNode c f (Some l) (Some r)) =
     HuffmanNode c f (Some l) (Some r) # internal_nodes l @ internal_nodes r"
  by (simp add: internal_nodes_def isLeaf_def)

lemma proper_counts: "proper t \<Longrightarrow> length (leaf_nodes t) = Suc (length (internal_nodes t))"
  by (induction t rule: proper.induct) simp_all

lemma proper_weight: "proper t \<Longrightarrow> sum_list (map frequency (leaf_nodes t)) = frequency t"
  by (induction t rule: proper.induct) simp_all

lemma proper_internal:
  "proper t \<Longrightarrow> n \<in> set (internal_nodes t) \<Longrightarrow>
     \<exists>l r. left n = Some l \<and> right n = Some r \<and> frequency l + frequency r = frequency n"
  by (induction t rule: proper.induct) auto

subsection \<open>The frequency map\<close>


lemma frequencies_buildFrequencyMap:
  "frequencies (buildFrequencyMap data this) = fold count_step data []"
  by (simp add: buildFrequencyMap_def count_step_def [abs_def])

lemma keys_count_step:
  "fst ` set (count_step c m) = insert c (fst ` set m)"
  "distinct (map fst m) \<Longrightarrow> distinct (map fst (count_step c m))"
proof -
  have "set (map fst (count_step c m)) = insert c (set (map fst m))"
    unfolding count_step_def keys_map_set by auto
  then show "fst ` set (count_step c m) = insert c (fst ` set m)"
    by simp
  show "distinct (map fst m) \<Longrightarrow> distinct (map fst (count_step c m))"
    unfolding count_step_def keys_map_set by auto
qed

lemma sum_map_set_count:
  "sum_list (map snd (map_set m c (Suc (case map_get m c of None \<Rightarrow> 0 | Some v \<Rightarrow> v))))
     = Suc (sum_list (map snd m))"
  by (induction m) auto

lemma fold_count_step_keys:
  "fst ` set (fold count_step data m) = set data \<union> fst ` set m"
  by (induction data arbitrary: m) (simp_all add: keys_count_step)

lemma fold_count_step_distinct:
  "distinct (map fst m) \<Longrightarrow> distinct (map fst (fold count_step data m))"
  by (induction data arbitrary: m) (simp_all add: keys_count_step)

lemma fold_count_step_sum:
  "sum_list (map snd (fold count_step data m)) = length data + sum_list (map snd m)"
  by (induction data arbitrary: m) (simp_all add: count_step_def sum_map_set_count)

lemma fold_count_step_get:
  "map_get (fold count_step data m) c =
     (if c \<in> set data
      then Some (count_list data c + (case map_get m c of None \<Rightarrow> 0 | Some v \<Rightarrow> v))
      else map_get m c)"
  by (induction data arbitrary: m) (auto simp: count_step_def map_get_map_set)

lemma frequency_map_facts:
  fixes data :: string
  defines "fm \<equiv> fold count_step data []"
  shows "distinct (map fst fm)" "fst ` set fm = set data" "length fm = card (set data)"
    "sum_list (map snd fm) = length data"
proof -
  show d: "distinct (map fst fm)" by (simp add: fm_def fold_count_step_distinct)
  show k: "fst ` set fm = set data" by (simp add: fm_def fold_count_step_keys)
  have "length fm = length (map fst fm)" by simp
  also have "\<dots> = card (set (map fst fm))" using d by (simp only: distinct_card)
  finally show "length fm = card (set data)" using k by simp
  show "sum_list (map snd fm) = length data" by (simp add: fm_def fold_count_step_sum)
qed

subsection \<open>The tree that compress builds\<close>



lemma mset_initial_heap:
  "mset (fold (\<lambda>(c, freq) heap. insert_heap frequency heap (HuffmanNode (Some c) freq None None)) fm h)
     = mset (map new_leaf fm) + mset h"
  by (induction fm arbitrary: h) (auto simp: mset_insert_heap new_leaf_def)

lemma forest_leaves_cong: "mset h = mset h' \<Longrightarrow> forest_leaves h = forest_leaves h'"
  by (simp add: forest_leaves_def)

lemma forest_leaves_new_leaves: "mset h = mset (map new_leaf fm) \<Longrightarrow> forest_leaves h = mset (map new_leaf fm)"
proof -
  assume "mset h = mset (map new_leaf fm)"
  then have "forest_leaves h = forest_leaves (map new_leaf fm)" by (rule forest_leaves_cong)
  also have "\<dots> = mset (map new_leaf fm)"
    by (induction fm) (simp_all add: forest_leaves_def new_leaf_def)
  finally show ?thesis .
qed

lemma buildHuffmanTree_loop_result:
  assumes "h \<noteq> []" and "\<forall>n\<in>set h. proper n"
  shows "\<exists>t. buildHuffmanTree_loop h = Inr [t] \<and> proper t \<and> mset (leaf_nodes t) = forest_leaves h"
proof -
  define I where "I h' \<longleftrightarrow> h' \<noteq> [] \<and> (\<forall>n\<in>#mset h'. proper n) \<and> forest_leaves h' = forest_leaves h" for h'
  have "I h" using assms by (simp add: I_def)
  moreover have "I (insert_heap frequency h2 (HuffmanNode None (frequency l + frequency r) (Some l) (Some r)))"
    if "I h'" "mset h' = add_mset l (add_mset r (mset h2))" for h' l r h2
  proof -
    let ?p = "HuffmanNode None (frequency l + frequency r) (Some l) (Some r)"
    let ?h = "insert_heap frequency h2 ?p"
    have m: "mset ?h = add_mset ?p (mset h2)" by (simp add: mset_insert_heap)
    have "?h \<noteq> []" using m by auto
    moreover have "\<forall>n\<in>#mset ?h. proper n"
      using that by (simp add: I_def m)
    moreover have "forest_leaves ?h = forest_leaves h'"
      by (simp add: forest_leaves_def m that(2))
    ultimately show ?thesis using that(1) by (simp add: I_def)
  qed
  ultimately obtain h' where r: "buildHuffmanTree_loop h = Inr h'" "I h'" "length h' \<le> 1"
    using loop_rule [of I h] by blast
  from r(2,3) obtain t where "h' = [t]"
    by (cases h') (auto simp: I_def)
  with r show ?thesis
    by (auto simp: I_def forest_leaves_def)
qed

lemma buildHuffmanTree_result:
  assumes "frequencies this \<noteq> []"
  shows "\<exists>t. buildHuffmanTree this = Inr (this\<lparr>root := Some t\<rparr>) \<and> proper t \<and>
           mset (leaf_nodes t) = mset (map new_leaf (frequencies this))"
proof -
  let ?h = "fold (\<lambda>(c, freq) heap. insert_heap frequency heap (HuffmanNode (Some c) freq None None))
              (frequencies this) []"
  have m: "mset ?h = mset (map new_leaf (frequencies this))"
    by (simp add: mset_initial_heap)
  then have "set ?h = set (map new_leaf (frequencies this))"
    by (rule mset_eq_setD)
  then have p: "\<forall>n\<in>set ?h. proper n"
    by (auto simp: new_leaf_def)
  have "?h \<noteq> []"
    using m assms by auto
  from buildHuffmanTree_loop_result [OF this p] forest_leaves_new_leaves [OF m]
  show ?thesis
    by (auto simp: buildHuffmanTree_def)
qed

lemma compress_result:
  assumes "data \<noteq> []"
  shows "\<exists>t. proper t \<and> mset (leaf_nodes t) = mset (map new_leaf (fold count_step data [])) \<and>
           compress data this =
             Inr (Success \<lparr>original = data,
                     encoded = encode data \<lparr>root = Some t, codes = generateCodes (Some t) [] [], frequencies = fold count_step data []\<rparr>,
                     originalBits = length data * 8,
                     compressedBits = length (encode data \<lparr>root = Some t, codes = generateCodes (Some t) [] [], frequencies = fold count_step data []\<rparr>),
                     result_frequencies = fold count_step data [],
                     result_codes = generateCodes (Some t) [] [],
                     tree = Some t\<rparr>,
                  \<lparr>root = Some t, codes = generateCodes (Some t) [] [], frequencies = fold count_step data []\<rparr>)"
proof -
  let ?this1 = "buildFrequencyMap data this"
  have f: "frequencies ?this1 = fold count_step data []"
    by (rule frequencies_buildFrequencyMap)
  have "fst ` set (fold count_step data []) = set data"
    by (rule frequency_map_facts)
  with assms have "frequencies ?this1 \<noteq> []"
    unfolding f by auto
  from buildHuffmanTree_result [OF this] obtain t where
    t: "buildHuffmanTree ?this1 = Inr (?this1\<lparr>root := Some t\<rparr>)" "proper t"
       "mset (leaf_nodes t) = mset (map new_leaf (frequencies ?this1))"
    by blast
  show ?thesis
    using assms t f
    by (intro exI [of _ t]) (cases this, simp add: compress_def Let_def buildFrequencyMap_def)
qed

lemma sum_list_map_mset_cong:
  fixes f :: "'a \<Rightarrow> nat"
  shows "mset xs = mset ys \<Longrightarrow> sum_list (map f xs) = sum_list (map f ys)"
proof -
  assume "mset xs = mset ys"
  then have "mset (map f xs) = mset (map f ys)" by simp
  then have "sum_mset (mset (map f xs)) = sum_mset (mset (map f ys))" by (rule arg_cong)
  then show ?thesis by (simp only: sum_mset_sum_list)
qed

lemma compress_success:
  assumes "data \<noteq> []"
  shows "\<exists>r this' t.
           compress data this = Inr (Success r, this') \<and>
           tree r = Some t \<and> root this' = Some t \<and> proper t \<and>
           mset (leaf_nodes t) = mset (map new_leaf (fold count_step data [])) \<and>
           result_codes r = generateCodes (Some t) [] [] \<and> codes this' = result_codes r \<and>
           result_frequencies r = fold count_step data [] \<and>
           encoded r = encode data this' \<and> compressedBits r = length (encoded r) \<and>
           originalBits r = length data * 8 \<and> original r = data"
proof -
  from compress_result [OF assms, of this] obtain t where
    t: "proper t" "mset (leaf_nodes t) = mset (map new_leaf (fold count_step data []))"
    and c: "compress data this =
             Inr (Success \<lparr>original = data,
                     encoded = encode data \<lparr>root = Some t, codes = generateCodes (Some t) [] [], frequencies = fold count_step data []\<rparr>,
                     originalBits = length data * 8,
                     compressedBits = length (encode data \<lparr>root = Some t, codes = generateCodes (Some t) [] [], frequencies = fold count_step data []\<rparr>),
                     result_frequencies = fold count_step data [],
                     result_codes = generateCodes (Some t) [] [],
                     tree = Some t\<rparr>,
                  \<lparr>root = Some t, codes = generateCodes (Some t) [] [], frequencies = fold count_step data []\<rparr>)"
    by blast
  show ?thesis
    apply (subst c)
    apply (rule exI, rule exI, rule exI [of _ t])
    apply (rule conjI, rule refl)
    apply (simp add: t)
    done
qed

subsection \<open>Codes are paths\<close>


lemma generateCodes_paths:
  "generateCodes (Some t) code cs =
     fold (\<lambda>(n, p) m. map_set m (char n) (code_or_0 (code @ p))) (paths t) cs"
proof (induction t arbitrary: code cs rule: paths.induct)
  case (1 c f l r)
  show ?case
  proof (cases "l = None \<and> r = None")
    case True
    then show ?thesis by (simp add: code_or_0_def)
  next
    case False
    have L: "generateCodes l (code @ ''0'') cs =
               fold (\<lambda>(n, p) m. map_set m (char n) (code_or_0 (code @ p)))
                 (case l of None \<Rightarrow> [] | Some n \<Rightarrow> map (\<lambda>(x, p). (x, CHR ''0'' # p)) (paths n)) cs"
      for cs
      using 1(1) [OF False] by (cases l) (simp_all add: fold_map comp_def case_prod_unfold)
    have R: "generateCodes r (code @ ''1'') cs =
               fold (\<lambda>(n, p) m. map_set m (char n) (code_or_0 (code @ p)))
                 (case r of None \<Rightarrow> [] | Some n \<Rightarrow> map (\<lambda>(x, p). (x, CHR ''1'' # p)) (paths n)) cs"
      for cs
      using 1(2) [OF False] by (cases r) (simp_all add: fold_map comp_def case_prod_unfold)
    have "generateCodes (Some (HuffmanNode c f l r)) code cs =
            generateCodes r (code @ ''1'') (generateCodes l (code @ ''0'') cs)"
      by (simp add: False)
    also have "\<dots> = fold (\<lambda>(n, p) m. map_set m (char n) (code_or_0 (code @ p)))
                         (paths (HuffmanNode c f l r)) cs"
      unfolding L R by (simp add: False)
    finally show ?thesis .
  qed
qed


lemma map_get_fold_map_set:
  "map_get (fold (\<lambda>(n, p) m. map_set m (k n) (g p)) xs cs) key = Some v \<Longrightarrow>
     (\<exists>(n, p)\<in>set xs. k n = key \<and> v = g p) \<or> map_get cs key = Some v"
  by (induction xs arbitrary: cs) (fastforce simp: map_get_map_set split: if_splits)+

lemma paths_prefix:
  "(n1, p1) \<in> set (paths t) \<Longrightarrow> (n2, p2) \<in> set (paths t) \<Longrightarrow> prefix p1 p2 \<Longrightarrow>
     n1 = n2 \<and> p1 = p2"
proof (induction t arbitrary: p1 p2 rule: paths.induct)
  case (1 c f l r)
  show ?case
  proof (cases "l = None \<and> r = None")
    case True
    with 1(3,4) show ?thesis by simp
  next
    case False
    let ?L = "case l of None \<Rightarrow> [] | Some n \<Rightarrow> map (\<lambda>(x, p). (x, CHR ''0'' # p)) (paths n)"
    let ?R = "case r of None \<Rightarrow> [] | Some n \<Rightarrow> map (\<lambda>(x, p). (x, CHR ''1'' # p)) (paths n)"
    have mem: "(n1, p1) \<in> set ?L \<union> set ?R" "(n2, p2) \<in> set ?L \<union> set ?R"
      using 1(3,4) False by simp_all
    have inL: "\<exists>x q. l = Some x \<and> p = CHR ''0'' # q \<and> (n, q) \<in> set (paths x)" if "(n, p) \<in> set ?L" for n p
      using that by (cases l) auto
    have inR: "\<exists>x q. r = Some x \<and> p = CHR ''1'' # q \<and> (n, q) \<in> set (paths x)" if "(n, p) \<in> set ?R" for n p
      using that by (cases r) auto
    from mem consider
      (LL) "(n1, p1) \<in> set ?L" "(n2, p2) \<in> set ?L" |
      (RR) "(n1, p1) \<in> set ?R" "(n2, p2) \<in> set ?R" |
      (LR) "(n1, p1) \<in> set ?L" "(n2, p2) \<in> set ?R" |
      (RL) "(n1, p1) \<in> set ?R" "(n2, p2) \<in> set ?L"
      by blast
    then show ?thesis
    proof cases
      case LL
      from inL [OF LL(1)] inL [OF LL(2)] obtain x q1 q2 where
        "l = Some x" "p1 = CHR ''0'' # q1" "p2 = CHR ''0'' # q2"
        "(n1, q1) \<in> set (paths x)" "(n2, q2) \<in> set (paths x)"
        by auto
      with 1(1) [OF False, of x q1 q2] 1(5) show ?thesis by simp
    next
      case RR
      from inR [OF RR(1)] inR [OF RR(2)] obtain x q1 q2 where
        "r = Some x" "p1 = CHR ''1'' # q1" "p2 = CHR ''1'' # q2"
        "(n1, q1) \<in> set (paths x)" "(n2, q2) \<in> set (paths x)"
        by auto
      with 1(2) [OF False, of x q1 q2] 1(5) show ?thesis by simp
    next
      case LR
      from inL [OF LR(1)] inR [OF LR(2)] 1(5) show ?thesis by auto
    next
      case RL
      from inR [OF RL(1)] inL [OF RL(2)] 1(5) show ?thesis by auto
    qed
  qed
qed

lemma generateCodes_prefix_free:
  assumes "map_get (generateCodes rt [] []) k1 = Some c1"
    and "map_get (generateCodes rt [] []) k2 = Some c2"
    and "k1 \<noteq> k2"
  shows "\<not> prefix c1 c2"
proof (cases rt)
  case None
  with assms(1) show ?thesis by simp
next
  case (Some t)
  from assms(1) obtain n1 p1 where 1: "(n1, p1) \<in> set (paths t)" "char n1 = k1" "c1 = code_or_0 p1"
    unfolding Some generateCodes_paths by (auto dest!: map_get_fold_map_set)
  from assms(2) obtain n2 p2 where 2: "(n2, p2) \<in> set (paths t)" "char n2 = k2" "c2 = code_or_0 p2"
    unfolding Some generateCodes_paths by (auto dest!: map_get_fold_map_set)
  from assms(3) 1(2) 2(2) have ne: "n1 \<noteq> n2" by auto
  have np: "\<not> prefix p1 p2" "\<not> prefix p2 p1"
    using paths_prefix [OF 1(1) 2(1)] paths_prefix [OF 2(1) 1(1)] ne by auto
  then have "p1 \<noteq> []" "p2 \<noteq> []" by auto
  with np 1(3) 2(3) show ?thesis by (simp add: code_or_0_def)
qed

subsection \<open>Encoding and decoding along paths\<close>

lemma fold_append_concat:
  "fold (\<lambda>c acc. acc @ g c) xs acc0 = acc0 @ concat (map g xs)"
  by (induction xs arbitrary: acc0) simp_all

lemma encode_eq_concat:
  "encode data this =
     concat (map (\<lambda>c. case map_get (codes this) (Some c) of
                          None \<Rightarrow> ''undefined''
                        | Some code \<Rightarrow> code) data)"
  by (simp add: encode_def fold_append_concat)

lemma paths_leaf: "isLeaf n \<Longrightarrow> paths n = [(n, [])]"
  by (cases n) (simp add: isLeaf_def)

lemma paths_internal:
  "\<not> isLeaf s \<Longrightarrow> (n, p) \<in> set (paths s) \<Longrightarrow>
     (\<exists>x q. left s = Some x \<and> p = CHR ''0'' # q \<and> (n, q) \<in> set (paths x)) \<or>
     (\<exists>x q. right s = Some x \<and> p = CHR ''1'' # q \<and> (n, q) \<in> set (paths x))"
  by (cases s) (auto simp: isLeaf_def split: option.splits)

lemma decode_loop_path:
  "\<not> isLeaf s \<Longrightarrow> (n, p) \<in> set (paths s) \<Longrightarrow>
     decode_loop rt (p @ rest) (Some s) acc = decode_loop rt rest rt (acc @ show_char (char n))"
proof (induction s arbitrary: p rule: paths.induct)
  case (1 c f l r)
  let ?s = "HuffmanNode c f l r"
  have nl: "\<not> (l = None \<and> r = None)"
    using 1(3) by (simp add: isLeaf_def)
  from paths_internal [OF 1(3,4)] show ?case
  proof (elim disjE exE conjE)
    fix x q assume x: "left ?s = Some x" "p = CHR ''0'' # q" "(n, q) \<in> set (paths x)"
    show ?thesis
    proof (cases "isLeaf x")
      case True
      with x(3) have "n = x" "q = []" by (simp_all add: paths_leaf)
      with x True show ?thesis by (simp add: show_char_def)
    next
      case False
      from 1(1) [OF nl _ False x(3)] x(1) have
        "decode_loop rt (q @ rest) (Some x) acc = decode_loop rt rest rt (acc @ show_char (char n))"
        by simp
      with x False show ?thesis by simp
    qed
  next
    fix x q assume x: "right ?s = Some x" "p = CHR ''1'' # q" "(n, q) \<in> set (paths x)"
    show ?thesis
    proof (cases "isLeaf x")
      case True
      with x(3) have "n = x" "q = []" by (simp_all add: paths_leaf)
      with x True show ?thesis by (simp add: show_char_def)
    next
      case False
      from 1(2) [OF nl _ False x(3)] x(1) have
        "decode_loop rt (q @ rest) (Some x) acc = decode_loop rt rest rt (acc @ show_char (char n))"
        by simp
      with x False show ?thesis by simp
    qed
  qed
qed

lemma leaf_nodes_paths: "proper t \<Longrightarrow> leaf_nodes t = map fst (paths t)"
  by (induction t rule: proper.induct) (simp_all add: comp_def case_prod_unfold)

lemma map_get_fold_other:
  "key \<notin> (k \<circ> fst) ` set xs \<Longrightarrow>
     map_get (fold (\<lambda>(n, p) m. map_set m (k n) (g p)) xs cs) key = map_get cs key"
  by (induction xs arbitrary: cs) (auto simp: map_get_map_set)

lemma map_get_fold_member:
  "distinct (map (k \<circ> fst) xs) \<Longrightarrow> (n, p) \<in> set xs \<Longrightarrow>
     map_get (fold (\<lambda>(n, p) m. map_set m (k n) (g p)) xs cs) (k n) = Some (g p)"
proof (induction xs arbitrary: cs)
  case Nil
  then show ?case by simp
next
  case (Cons x xs)
  show ?case
  proof (cases "(n, p) \<in> set xs")
    case True
    with Cons show ?thesis by simp
  next
    case False
    with Cons.prems(2) have x: "x = (n, p)" by simp
    from Cons.prems(1) have "(k \<circ> fst) x \<notin> (k \<circ> fst) ` set xs" by simp
    with x have "k n \<notin> (k \<circ> fst) ` set xs" by simp
    with x show ?thesis
      by (simp add: map_get_fold_other map_get_map_set)
  qed
qed

lemma paths_nonempty: "\<not> isLeaf t \<Longrightarrow> (n, p) \<in> set (paths t) \<Longrightarrow> p \<noteq> []"
  by (auto dest: paths_internal)


lemma length_leaf_nodes_isLeaf: "isLeaf t \<Longrightarrow> length (leaf_nodes t) = 1"
  by (cases t) (simp add: isLeaf_def)

lemma decode_loop_encoded:
  assumes nl: "\<not> isLeaf t"
    and code: "\<And>c. c \<in> set xs \<Longrightarrow> \<exists>n. (n, code c) \<in> set (paths t) \<and> char n = Some c"
  shows "decode_loop (Some t) (concat (map code xs)) (Some t) acc = Inr (acc @ xs)"
  using code
proof (induction xs arbitrary: acc)
  case Nil
  show ?case by simp
next
  case (Cons x xs)
  from Cons.prems [of x] obtain n where n: "(n, code x) \<in> set (paths t)" "char n = Some x"
    by auto
  have "decode_loop (Some t) (code x @ concat (map code xs)) (Some t) acc
          = decode_loop (Some t) (concat (map code xs)) (Some t) (acc @ show_char (char n))"
    using nl n(1) by (rule decode_loop_path)
  also have "\<dots> = Inr ((acc @ [x]) @ xs)"
    using Cons.IH [of "acc @ [x]"] Cons.prems n(2) by (simp add: show_char_def)
  finally show ?case by simp
qed

text \<open>
  On every input with at least two distinct symbols, decoding the encoded string against
  the tree of the same call gives the input back.
\<close>

lemma round_trip_two_symbols:
  assumes "2 \<le> card (set data)"
  shows "\<exists>r this'. compress data this = Inr (Success r, this') \<and> root this' = tree r \<and>
           decode (encoded r) this' = Inr data"
proof -
  let ?fm = "fold count_step data []"
  from assms have ne: "data \<noteq> []" by auto
  from compress_success [OF ne, of this] obtain r this' t where
    c: "compress data this = Inr (Success r, this')" "tree r = Some t" "root this' = Some t"
    and t: "proper t" "mset (leaf_nodes t) = mset (map new_leaf ?fm)"
    and g: "result_codes r = generateCodes (Some t) [] []" "codes this' = result_codes r"
    and e: "encoded r = encode data this'"
    by blast
  have "size (mset (leaf_nodes t)) = size (mset (map new_leaf ?fm))"
    using t(2) by simp
  then have "length (leaf_nodes t) = card (set data)"
    by (simp add: frequency_map_facts)
  with assms have nl: "\<not> isLeaf t"
    using length_leaf_nodes_isLeaf [of t] by auto
  have "mset (map char (leaf_nodes t)) = mset (map char (map new_leaf ?fm))"
    using t(2) by (metis mset_map)
  also have "map char (map new_leaf ?fm) = map Some (map fst ?fm)"
    by (simp add: new_leaf_def)
  finally have m: "mset (map char (leaf_nodes t)) = mset (map Some (map fst ?fm))" .
  have "distinct (map fst ?fm)"
    by (rule frequency_map_facts)
  then have "distinct (map Some (map fst ?fm))"
    by (subst distinct_map) simp
  then have d: "distinct (map (char \<circ> fst) (paths t))"
    using m leaf_nodes_paths [OF t(1)] by (metis mset_eq_imp_distinct_iff map_map)
  have k: "(char \<circ> fst) ` set (paths t) = Some ` set data"
  proof -
    have "(char \<circ> fst) ` set (paths t) = set (map char (map fst (paths t)))"
      by (simp add: image_comp)
    also have "\<dots> = set (map char (leaf_nodes t))"
      by (simp only: leaf_nodes_paths [OF t(1)])
    also have "\<dots> = set (map Some (map fst ?fm))"
      using m by (rule mset_eq_setD)
    also have "\<dots> = Some ` (fst ` set ?fm)"
      by (simp add: image_image)
    also have "\<dots> = Some ` set data"
      by (simp only: frequency_map_facts(2))
    finally show ?thesis .
  qed
  define code where "code c = (case map_get (codes this') (Some c) of None \<Rightarrow> ''undefined'' | Some x \<Rightarrow> x)" for c
  have "\<exists>n. (n, code c) \<in> set (paths t) \<and> char n = Some c" if "c \<in> set data" for c
  proof -
    from that k obtain n p where np: "(n, p) \<in> set (paths t)" "char n = Some c"
      by (metis (no_types, lifting) comp_apply imageE image_eqI prod.collapse)
    have "p \<noteq> []" using nl np(1) by (rule paths_nonempty)
    moreover have "map_get (codes this') (char n) = Some (code_or_0 ([] @ p))"
      unfolding g generateCodes_paths using d np(1) by (rule map_get_fold_member)
    ultimately have "code c = p"
      by (simp add: code_def np(2) code_or_0_def)
    with np show ?thesis by blast
  qed
  then have "decode_loop (Some t) (concat (map code data)) (Some t) [] = Inr ([] @ data)"
    by (intro decode_loop_encoded [OF nl]) blast
  moreover have "encoded r = concat (map code data)"
    unfolding e encode_eq_concat code_def ..
  ultimately have "decode (encoded r) this' = Inr data"
    by (simp add: decode_def c)
  with c show ?thesis by auto
qed

lemma proper_no_internal: "proper t \<Longrightarrow> internal_nodes t = [] \<Longrightarrow> isLeaf t"
  by (induction t rule: proper.induct) (simp_all add: isLeaf_def)

text \<open>
  On every input with exactly one distinct symbol the tree is a single leaf, and decoding
  the encoded string against it throws on the first bit.
\<close>

lemma round_trip_fails_single_symbol:
  assumes "card (set data) = 1"
  shows "\<exists>r this'. compress data this = Inr (Success r, this') \<and> root this' = tree r \<and>
           encoded r \<noteq> [] \<and> decode (encoded r) this' = Inl TypeError"
proof -
  let ?fm = "fold count_step data []"
  from assms have ne: "data \<noteq> []" by auto
  from compress_success [OF ne, of this] obtain r this' t where
    c: "compress data this = Inr (Success r, this')" "tree r = Some t" "root this' = Some t"
    and t: "proper t" "mset (leaf_nodes t) = mset (map new_leaf ?fm)"
    and g: "result_codes r = generateCodes (Some t) [] []" "codes this' = result_codes r"
    and e: "encoded r = encode data this'"
    by blast
  have "size (mset (leaf_nodes t)) = size (mset (map new_leaf ?fm))"
    using t(2) by simp
  then have "length (leaf_nodes t) = 1"
    using assms by (simp add: frequency_map_facts)
  then have "internal_nodes t = []"
    using proper_counts [OF t(1)] by simp
  with t(1) have leaf: "isLeaf t" by (rule proper_no_internal)
  obtain x xs where d: "data = x # xs" using ne by (cases data) auto
  have cs: "codes this' = [(char t, ''0'')]"
    using leaf unfolding g by (cases t) (simp add: isLeaf_def)
  have "encoded r = encode [x] this' @ encode xs this'"
    unfolding e d encode_eq_concat by simp
  moreover have "encode [x] this' \<noteq> []"
    unfolding encode_eq_concat cs by simp
  ultimately have "encoded r \<noteq> []"
    by simp
  then obtain b bs where enc: "encoded r = b # bs"
    by (cases "encoded r") simp_all
  have "decode (encoded r) this' = Inl TypeError"
    using leaf unfolding decode_def enc c(3) by (simp add: isLeaf_def)
  with c enc show ?thesis by simp
qed

subsection \<open>Heap ordering\<close>

lemma parent_index_less: "0 < i \<Longrightarrow> parent_index i < i"
  by (simp add: parent_index_def)

lemma parent_index_children [simp]: "parent_index (2 * i + 1) = i" "parent_index (2 * i + 2) = i" "parent_index (Suc (2 * i)) = i" "parent_index (Suc (Suc (2 * i))) = i"
  by (simp_all add: parent_index_def)

lemma child_cases: "0 < i \<Longrightarrow> i = 2 * parent_index i + 1 \<or> i = 2 * parent_index i + 2"
  by (simp add: parent_index_def) arith

lemma heap_ok_parent:
  "heap_ok fr h \<longleftrightarrow> (\<forall>i<length h. 0 < i \<longrightarrow> fr (h ! parent_index i) \<le> fr (h ! i))"
proof
  assume ok: "heap_ok fr h"
  show "\<forall>i<length h. 0 < i \<longrightarrow> fr (h ! parent_index i) \<le> fr (h ! i)"
  proof (intro allI impI)
    fix i assume i: "i < length h" "0 < i"
    then have p: "parent_index i < length h" using parent_index_less [of i] by simp
    from child_cases [OF i(2)] show "fr (h ! parent_index i) \<le> fr (h ! i)"
    proof
      assume e: "i = 2 * parent_index i + 1"
      then have "2 * parent_index i + 1 < length h" using i(1) by simp
      with ok p have "fr (h ! parent_index i) \<le> fr (h ! (2 * parent_index i + 1))" unfolding heap_ok_def by blast
      with e show ?thesis by simp
    next
      assume e: "i = 2 * parent_index i + 2"
      then have "2 * parent_index i + 2 < length h" using i(1) by simp
      with ok p have "fr (h ! parent_index i) \<le> fr (h ! (2 * parent_index i + 2))" unfolding heap_ok_def by blast
      with e show ?thesis by simp
    qed
  qed
next
  assume a: "\<forall>i<length h. 0 < i \<longrightarrow> fr (h ! parent_index i) \<le> fr (h ! i)"
  show "heap_ok fr h"
    unfolding heap_ok_def
  proof (intro allI impI conjI)
    fix i assume "2 * i + 1 < length h"
    with a [rule_format, of "2 * i + 1"] show "fr (h ! i) \<le> fr (h ! (2 * i + 1))" by simp
  next
    fix i assume "2 * i + 2 < length h"
    with a [rule_format, of "2 * i + 2"] show "fr (h ! i) \<le> fr (h ! (2 * i + 2))" by simp
  qed
qed

lemma nth_swap:
  "i < length h \<Longrightarrow> j < length h \<Longrightarrow>
     swap h i j ! n = (if n = j then h ! i else if n = i then h ! j else h ! n)"
  by (simp add: swap_def nth_list_update)

lemma bubbleUp_unfold:
  "bubbleUp fr h k =
     (if 0 < k \<and> fr (h ! k) < fr (h ! parent_index k) then bubbleUp fr (swap h k (parent_index k)) (parent_index k) else h)"
  by (subst bubbleUp.simps) (simp add: Let_def parent_index_def not_le)

lemma bubbleDown_unfold:
  "bubbleDown fr h k =
     (if smallest_of fr h k = k then h
      else bubbleDown fr (swap h k (smallest_of fr h k)) (smallest_of fr h k))"
  by (subst bubbleDown.simps) (simp add: Let_def smallest_of_def)

lemma smallest_of_cases:
  "smallest_of fr h k = k \<or>
   (smallest_of fr h k = 2 * k + 1 \<or> smallest_of fr h k = 2 * k + 2) \<and>
     smallest_of fr h k < length h \<and> fr (h ! smallest_of fr h k) < fr (h ! k)"
  by (auto simp: smallest_of_def Let_def)

lemma smallest_of_le:
  "fr (h ! smallest_of fr h k) \<le> fr (h ! k)"
  "2 * k + 1 < length h \<Longrightarrow> fr (h ! smallest_of fr h k) \<le> fr (h ! (2 * k + 1))"
  "2 * k + 2 < length h \<Longrightarrow> fr (h ! smallest_of fr h k) \<le> fr (h ! (2 * k + 2))"
  by (auto simp: smallest_of_def Let_def)


lemma heap_up_swap:
  assumes inv: "heap_up fr h k" and k: "0 < k" "k < length h"
    and lt: "fr (h ! k) < fr (h ! parent_index k)"
  shows "heap_up fr (swap h k (parent_index k)) (parent_index k)"
proof -
  let ?p = "parent_index k"
  let ?h = "swap h k ?p"
  have pk: "?p < k" using k(1) by (rule parent_index_less)
  then have pl: "?p < length h" using k(2) by simp
  have nth: "?h ! n = (if n = ?p then h ! k else if n = k then h ! ?p else h ! n)" for n
    using nth_swap [OF k(2) pl] by simp
  have old: "fr (h ! parent_index i) \<le> fr (h ! i)" if "i < length h" "0 < i" "i \<noteq> k" for i
    using inv that unfolding heap_up_def by blast
  have grand: "fr (h ! ?p) \<le> fr (h ! i)" if "i < length h" "0 < i" "parent_index i = k" for i
    using inv that k(1) unfolding heap_up_def by blast
  have A: "fr (?h ! parent_index i) \<le> fr (?h ! i)" if i: "i < length h" "0 < i" "i \<noteq> ?p" for i
  proof (cases "i = k")
    case True
    then show ?thesis using lt pk by (simp add: nth)
  next
    case False
    have pi: "parent_index i < i" using i(2) by (rule parent_index_less)
    show ?thesis
    proof (cases "parent_index i = k")
      case True
      then show ?thesis using grand [OF i(1,2)] False i(3) pk by (simp add: nth)
    next
      case nk: False
      show ?thesis
      proof (cases "parent_index i = ?p")
        case True
        then show ?thesis using old [OF i(1,2) False] False i(3) lt by (simp add: nth)
      next
        case False
        with nk show ?thesis using old [OF i(1,2) \<open>i \<noteq> k\<close>] \<open>i \<noteq> k\<close> i(3) by (simp add: nth)
      qed
    qed
  qed
  have B: "fr (?h ! parent_index ?p) \<le> fr (?h ! i)" if i: "i < length h" "0 < i" "parent_index i = ?p" "0 < ?p" for i
  proof -
    have pp: "parent_index ?p < ?p" using i(4) by (rule parent_index_less)
    have 1: "?h ! parent_index ?p = h ! parent_index ?p" using pp pk by (simp add: nth)
    have 2: "fr (h ! parent_index ?p) \<le> fr (h ! ?p)" using old [OF pl i(4)] pk by simp
    have ip: "i \<noteq> ?p" using parent_index_less [OF i(2)] i(3) by simp
    show ?thesis
    proof (cases "i = k")
      case True
      then show ?thesis using 1 2 pk by (simp add: nth)
    next
      case False
      then show ?thesis using 1 2 old [OF i(1,2) False] i(3) ip by (simp add: nth)
    qed
  qed
  show ?thesis
    unfolding heap_up_def using A B by simp
qed

lemma bubbleUp_heap_ok:
  "heap_up fr h k \<Longrightarrow> k < length h \<Longrightarrow> heap_ok fr (bubbleUp fr h k)"
proof (induction k arbitrary: h rule: less_induct)
  case (less k)
  show ?case
  proof (cases "0 < k \<and> fr (h ! k) < fr (h ! parent_index k)")
    case True
    then have pk: "parent_index k < k" by (simp add: parent_index_less)
    have "heap_up fr (swap h k (parent_index k)) (parent_index k)"
      using heap_up_swap [OF less.prems(1)] True less.prems(2) by simp
    moreover have "parent_index k < length (swap h k (parent_index k))"
      using pk less.prems(2) by simp
    ultimately have "heap_ok fr (bubbleUp fr (swap h k (parent_index k)) (parent_index k))"
      using less.IH [OF pk] by blast
    then show ?thesis
      using True by (subst bubbleUp_unfold) simp
  next
    case False
    have "fr (h ! parent_index i) \<le> fr (h ! i)" if "i < length h" "0 < i" for i
    proof (cases "i = k")
      case True
      with False that show ?thesis by auto
    next
      case False
      with less.prems(1) that show ?thesis unfolding heap_up_def by blast
    qed
    then have "heap_ok fr h"
      by (simp add: heap_ok_parent)
    then show ?thesis
      using False by (subst bubbleUp_unfold) auto
  qed
qed

lemma heap_down_swap:
  assumes inv: "heap_down fr h k" and s: "smallest_of fr h k \<noteq> k"
  shows "heap_down fr (swap h k (smallest_of fr h k)) (smallest_of fr h k)"
proof -
  let ?s = "smallest_of fr h k"
  let ?h = "swap h k ?s"
  from smallest_of_cases [of fr h k] s have
    sc: "?s = 2 * k + 1 \<or> ?s = 2 * k + 2" and sl: "?s < length h" and lt: "fr (h ! ?s) < fr (h ! k)"
    by auto
  from sc have ps: "parent_index ?s = k" by auto
  from sc have ks: "k < ?s" by auto
  then have kl: "k < length h" using sl by simp
  have nth: "?h ! n = (if n = ?s then h ! k else if n = k then h ! ?s else h ! n)" for n
    using nth_swap [OF kl sl] by simp
  have old: "fr (h ! parent_index i) \<le> fr (h ! i)" if "i < length h" "0 < i" "parent_index i \<noteq> k" for i
    using inv that unfolding heap_down_def by blast
  have grand: "fr (h ! parent_index k) \<le> fr (h ! i)" if "i < length h" "0 < i" "parent_index i = k" "0 < k" for i
    using inv that unfolding heap_down_def by blast
  have A: "fr (?h ! parent_index i) \<le> fr (?h ! i)" if i: "i < length h" "0 < i" "parent_index i \<noteq> ?s" for i
  proof -
    have pi: "parent_index i < i" using i(2) by (rule parent_index_less)
    consider (k) "i = k" | (s) "i = ?s" | (sib) "i \<noteq> k" "i \<noteq> ?s" "parent_index i = k"
      | (other) "i \<noteq> k" "i \<noteq> ?s" "parent_index i \<noteq> k"
      by blast
    then show ?thesis
    proof cases
      case k
      then have "0 < k" using i(2) by simp
      from grand [OF sl _ ps this] ks have "fr (h ! parent_index k) \<le> fr (h ! ?s)" by simp
      moreover have "?h ! parent_index k = h ! parent_index k"
        using parent_index_less [OF \<open>0 < k\<close>] ks by (simp add: nth)
      ultimately show ?thesis using k ks by (simp add: nth)
    next
      case s
      then show ?thesis using ps lt ks by (simp add: nth)
    next
      case sib
      from child_cases [OF i(2)] sib(3) have "i = 2 * k + 1 \<or> i = 2 * k + 2" by simp
      then have "fr (h ! ?s) \<le> fr (h ! i)"
        using smallest_of_le(2,3) [of k h fr] i(1) by auto
      then show ?thesis using sib ks by (simp add: nth)
    next
      case other
      then show ?thesis using old [OF i(1,2)] i(3) by (simp add: nth)
    qed
  qed
  have B: "fr (?h ! parent_index ?s) \<le> fr (?h ! i)" if i: "i < length h" "0 < i" "parent_index i = ?s" for i
  proof -
    have "?s < i" using parent_index_less [OF i(2)] i(3) by simp
    then have "i \<noteq> k" "i \<noteq> ?s" using ks by auto
    moreover have "fr (h ! ?s) \<le> fr (h ! i)"
      using old [OF i(1,2)] i(3) ks by simp
    ultimately show ?thesis using ps ks by (simp add: nth)
  qed
  show ?thesis
    unfolding heap_down_def using A B by simp
qed

lemma bubbleDown_heap_ok:
  "heap_down fr h k \<Longrightarrow> heap_ok fr (bubbleDown fr h k)"
proof (induction "length h - k" arbitrary: h k rule: less_induct)
  case less
  let ?s = "smallest_of fr h k"
  show ?case
  proof (cases "?s = k")
    case True
    have "fr (h ! parent_index i) \<le> fr (h ! i)" if i: "i < length h" "0 < i" for i
    proof (cases "parent_index i = k")
      case False
      with less.prems i show ?thesis unfolding heap_down_def by blast
    next
      case pk: True
      from child_cases [OF i(2)] pk have "i = 2 * k + 1 \<or> i = 2 * k + 2" by simp
      then have "fr (h ! ?s) \<le> fr (h ! i)"
        using smallest_of_le(2,3) [of k h fr] i(1) by auto
      then show ?thesis using True pk by simp
    qed
    then have "heap_ok fr h" by (simp add: heap_ok_parent)
    then show ?thesis using True by (subst bubbleDown_unfold) simp
  next
    case False
    from smallest_of_cases [of fr h k] False have "k < ?s" "?s < length h" by auto
    then have "length (swap h k ?s) - ?s < length h - k" by simp
    from less.hyps [OF this heap_down_swap [OF less.prems False]]
    show ?thesis using False by (subst bubbleDown_unfold) simp
  qed
qed


lemma heap_ok_Nil [simp]: "heap_ok fr []"
  by (simp add: heap_ok_def)

lemma insert_heap_ok:
  assumes "heap_ok fr h"
  shows "heap_ok fr (insert_heap fr h x)"
proof -
  have "heap_up fr (h @ [x]) (length h)"
    unfolding heap_up_def
  proof (intro conjI allI impI)
    fix i assume i: "i < length (h @ [x])" "0 < i" "i \<noteq> length h"
    then have il: "i < length h" by simp
    then have "parent_index i < length h" using parent_index_less [OF i(2)] by simp
    with assms il i(2) show "fr ((h @ [x]) ! parent_index i) \<le> fr ((h @ [x]) ! i)"
      by (simp add: heap_ok_parent nth_append)
  next
    fix i assume "i < length (h @ [x])" "0 < i" "parent_index i = length h"
    with parent_index_less [of i] have False by simp
    then show "fr ((h @ [x]) ! parent_index (length h)) \<le> fr ((h @ [x]) ! i)" ..
  qed
  then show ?thesis
    by (simp add: insert_heap_def bubbleUp_heap_ok)
qed

lemma extractMin_heap_ok:
  assumes "heap_ok fr h"
  shows "heap_ok fr (snd (extractMin fr h))"
proof (cases "length h \<le> 1")
  case True
  then have "snd (extractMin fr h) = []"
    by (cases h) (auto simp: extractMin_def)
  then show ?thesis by simp
next
  case False
  let ?h = "(butlast h)[0 := last h]"
  have "heap_down fr ?h 0"
    unfolding heap_down_def
  proof (intro conjI allI impI)
    fix i assume i: "i < length ?h" "0 < i" "parent_index i \<noteq> 0"
    then have il: "i < length h" by simp
    have "fr (h ! parent_index i) \<le> fr (h ! i)"
      using assms il i(2) by (simp add: heap_ok_parent)
    moreover have "?h ! i = h ! i"
      using i(1,2) by (simp add: nth_butlast)
    moreover have "?h ! parent_index i = h ! parent_index i"
      using i(1,3) parent_index_less [OF i(2)] by (simp add: nth_butlast)
    ultimately show "fr (?h ! parent_index i) \<le> fr (?h ! i)" by simp
  qed simp
  then have "heap_ok fr (bubbleDown fr ?h 0)"
    by (rule bubbleDown_heap_ok)
  then show ?thesis
    using False by (simp add: extractMin_def Let_def)
qed

lemma heap_ok_root_least:
  assumes "heap_ok fr h" and "i < length h"
  shows "fr (h ! 0) \<le> fr (h ! i)"
  using assms(2)
proof (induction i rule: less_induct)
  case (less i)
  show ?case
  proof (cases "i = 0")
    case True
    then show ?thesis by simp
  next
    case False
    then have p: "parent_index i < i" by (simp add: parent_index_less)
    then have "fr (h ! 0) \<le> fr (h ! parent_index i)"
      using less by simp
    also have "\<dots> \<le> fr (h ! i)"
      using assms(1) less.prems False by (simp add: heap_ok_parent)
    finally show ?thesis .
  qed
qed

lemma extractMin_least:
  assumes "heap_ok fr h" and "h \<noteq> []"
  shows "\<exists>m h'. extractMin fr h = (Some m, h') \<and> m \<in> set h \<and> (\<forall>x\<in>set h. fr m \<le> fr x) \<and>
           mset h = add_mset m (mset h') \<and> heap_ok fr h'"
proof -
  from mset_extractMin [OF assms(2), of fr] obtain m h' where
    e: "extractMin fr h = (Some m, h')" "mset h = add_mset m (mset h')"
    by blast
  have m: "m = h ! 0"
    using e(1) assms(2) by (cases h) (auto simp: extractMin_def Let_def split: if_splits)
  have "fr m \<le> fr x" if "x \<in> set h" for x
    using that heap_ok_root_least [OF assms(1)] unfolding m by (auto simp: in_set_conv_nth)
  moreover have "m \<in> set h"
    using m assms(2) by simp
  moreover have "heap_ok fr h'"
    using extractMin_heap_ok [OF assms(1)] e(1) by simp
  ultimately show ?thesis
    using e by blast
qed

lemma run_ops_invariant:
  assumes "heap_ok fr h"
  shows "heap_ok fr (fst (run_ops fr ops (h, out))) \<and>
         mset (fst (run_ops fr ops (h, out))) + mset (snd (run_ops fr ops (h, out)))
           = mset h + mset out + mset (inserted ops)"
  using assms
proof (induction ops arbitrary: h out)
  case Nil
  then show ?case by simp
next
  case (Cons op ops)
  show ?case
  proof (cases op)
    case (Insert x)
    have "heap_ok fr (insert_heap fr h x)"
      using Cons.prems by (rule insert_heap_ok)
    from Cons.IH [OF this, of out] show ?thesis
      by (simp add: Insert mset_insert_heap)
  next
    case ExtractMin
    show ?thesis
    proof (cases "h = []")
      case True
      with Cons.IH [of "[]" out] show ?thesis
        by (simp add: ExtractMin)
    next
      case False
      from extractMin_least [OF Cons.prems False] obtain m h' where
        e: "extractMin fr h = (Some m, h')" "mset h = add_mset m (mset h')" "heap_ok fr h'"
        by blast
      from Cons.IH [OF e(3), of "out @ [m]"] show ?thesis
        by (simp add: ExtractMin e)
    qed
  qed
qed

subsection \<open>What compress writes to the store\<close>

lemma new_HuffmanCoding_st_wf:
  "closed (node_store s) \<Longrightarrow> new_HuffmanCoding_st s = (this, s') \<Longrightarrow> wf_state this s'"
  by (auto simp: new_HuffmanCoding_st_def wf_state_def)

lemma buildFrequencyMap_st_frame:
  "node_store (buildFrequencyMap_st data this s) = node_store s \<and>
   code_store (buildFrequencyMap_st data this s) = code_store s \<and>
   length (freq_store (buildFrequencyMap_st data this s)) = length (freq_store s) \<and>
   (\<forall>a. a \<noteq> frequencies_ref this \<longrightarrow>
      freq_store (buildFrequencyMap_st data this s) ! a = freq_store s ! a)"
proof -
  let ?f = "\<lambda>c s. s\<lparr>freq_store := (freq_store s)[frequencies_ref this :=
                      map_set (freq_store s ! frequencies_ref this) c
                        ((case map_get (freq_store s ! frequencies_ref this) c of
                            None \<Rightarrow> 0 | Some v \<Rightarrow> v) + 1)]\<rparr>"
  have "node_store (fold ?f data s0) = node_store s0 \<and>
        code_store (fold ?f data s0) = code_store s0 \<and>
        length (freq_store (fold ?f data s0)) = length (freq_store s0) \<and>
        (\<forall>a. a \<noteq> frequencies_ref this \<longrightarrow> freq_store (fold ?f data s0) ! a = freq_store s0 ! a)"
    for s0
    by (induction data arbitrary: s0) simp_all
  from this [of "s\<lparr>freq_store := (freq_store s)[frequencies_ref this := []]\<rparr>"]
  show ?thesis
    unfolding buildFrequencyMap_st_def by simp
qed

lemma codes_only_refl: "codes_only this s s"
  by (simp add: codes_only_def)

lemma codes_only_trans: "codes_only this s s1 \<Longrightarrow> codes_only this s1 s2 \<Longrightarrow> codes_only this s s2"
  by (simp add: codes_only_def)

lemma generateCodes_st_frame:
  assumes "generateCodes_st this node code s = Some s'"
  shows "codes_only this s s'"
proof (rule generateCodes_st.raw_induct [where P = "\<lambda>this node code s s'. codes_only this s s'", OF _ assms], goal_cases)
  case (1 f this node code s s')
  show ?case
  proof (cases node)
    case None
    with 1(2) show ?thesis by (simp add: codes_only_refl)
  next
    case (Some a)
    show ?thesis
    proof (cases "n_left (node_store s ! a) = None \<and> n_right (node_store s ! a) = None")
      case True
      with 1(2) Some show ?thesis by (auto simp: codes_only_def)
    next
      case False
      with 1(2) Some obtain s1 where
        s1: "f this (n_left (node_store s ! a)) (code @ ''0'') s = Some s1"
        and s': "f this (n_right (node_store s1 ! a)) (code @ ''1'') s1 = Some s'"
        by (auto simp: bind_eq_Some_conv)
      from 1(1) [OF s1] 1(1) [OF s'] show ?thesis by (rule codes_only_trans)
    qed
  qed
qed

lemma closed_append:
  assumes "closed ns" and "\<And>b. n_left n = Some b \<Longrightarrow> b < length ns"
    and "\<And>b. n_right n = Some b \<Longrightarrow> b < length ns"
  shows "closed (ns @ [n])"
  unfolding closed_def
proof (intro allI impI)
  fix a assume "a < length (ns @ [n])"
  then consider "a < length ns" | "a = length ns" by fastforce
  then show "(\<forall>b. n_left ((ns @ [n]) ! a) = Some b \<longrightarrow> b < a) \<and>
             (\<forall>b. n_right ((ns @ [n]) ! a) = Some b \<longrightarrow> b < a)"
  proof cases
    case 1
    with assms(1) show ?thesis by (simp add: closed_def nth_append)
  next
    case 2
    with assms(2,3) show ?thesis by simp
  qed
qed

lemma set_insert_heap: "set (insert_heap fr h x) = insert x (set h)"
  using mset_insert_heap [of fr h x] by (metis set_mset_add_mset_insert set_mset_mset)

lemma tree_inv_add_leaf:
  assumes "tree_inv s0 (heap, s)"
  shows "tree_inv s0 (case new_HuffmanNode (Some c) freq s of
                        (a, s') \<Rightarrow> (insert_heap (frequency_at s') heap a, s'))"
proof -
  have "closed (node_store s @ [\<lparr>n_char = Some c, n_frequency = freq, n_left = None, n_right = None\<rparr>])"
    using assms by (intro closed_append) (simp_all add: tree_inv_def)
  with assms show ?thesis
    by (auto simp: tree_inv_def new_HuffmanNode_def set_insert_heap less_Suc_eq)
qed

lemma tree_inv_leaves:
  "tree_inv s0 hs \<Longrightarrow>
     tree_inv s0 (fold (\<lambda>(c, freq) (heap, s).
                          case new_HuffmanNode (Some c) freq s of
                            (a, s') \<Rightarrow> (insert_heap (frequency_at s') heap a, s')) fm hs)"
proof (induction fm arbitrary: hs)
  case Nil
  then show ?case by simp
next
  case (Cons e fm)
  obtain c freq where e: "e = (c, freq)" by (cases e)
  obtain heap s where hs: "hs = (heap, s)" by (cases hs)
  from Cons.prems have "tree_inv s0 (case new_HuffmanNode (Some c) freq s of
                        (a, s') \<Rightarrow> (insert_heap (frequency_at s') heap a, s'))"
    unfolding hs by (rule tree_inv_add_leaf)
  from Cons.IH [OF this] show ?case
    by (simp add: e hs)
qed

lemma link_parent:
  "set_right (length (node_store s)) (Some r)
     (set_left (length (node_store s)) (Some l) (snd (new_HuffmanNode c f s)))
   = s\<lparr>node_store := node_store s @ [\<lparr>n_char = c, n_frequency = f, n_left = Some l, n_right = Some r\<rparr>]\<rparr>"
  by (simp add: set_right_def set_left_def new_HuffmanNode_def)

lemma loop_st_stop: "length heap \<le> 1 \<Longrightarrow> buildHuffmanTree_loop_st (heap, s) = Inr (heap, s)"
  by (subst buildHuffmanTree_loop_st.simps) simp

lemma loop_st_step:
  assumes "1 < length heap"
  shows "\<exists>l r h2. mset heap = add_mset l (add_mset r (mset h2)) \<and>
           buildHuffmanTree_loop_st (heap, s) =
             buildHuffmanTree_loop_st
               (insert_heap
                  (frequency_at (s\<lparr>node_store := node_store s @
                     [\<lparr>n_char = None, n_frequency = frequency_at s l + frequency_at s r,
                        n_left = Some l, n_right = Some r\<rparr>]\<rparr>))
                  h2 (length (node_store s)),
                s\<lparr>node_store := node_store s @
                     [\<lparr>n_char = None, n_frequency = frequency_at s l + frequency_at s r,
                        n_left = Some l, n_right = Some r\<rparr>]\<rparr>)"
proof -
  let ?fr = "frequency_at s"
  from assms have "heap \<noteq> []" by auto
  then obtain l h1 where 1: "extractMin ?fr heap = (Some l, h1)" "mset heap = add_mset l (mset h1)"
    using mset_extractMin by blast
  have "length h1 = length heap - 1"
    using length_extractMin [of ?fr heap] 1 by simp
  with assms have "h1 \<noteq> []" by auto
  then obtain r h2 where 2: "extractMin ?fr h1 = (Some r, h2)" "mset h1 = add_mset r (mset h2)"
    using mset_extractMin by blast
  have p: "fst (new_HuffmanNode c f s) = length (node_store s)" for c f
    by (simp add: new_HuffmanNode_def)
  have "buildHuffmanTree_loop_st (heap, s) =
             buildHuffmanTree_loop_st
               (insert_heap
                  (frequency_at (s\<lparr>node_store := node_store s @
                     [\<lparr>n_char = None, n_frequency = frequency_at s l + frequency_at s r,
                        n_left = Some l, n_right = Some r\<rparr>]\<rparr>))
                  h2 (length (node_store s)),
                s\<lparr>node_store := node_store s @
                     [\<lparr>n_char = None, n_frequency = frequency_at s l + frequency_at s r,
                        n_left = Some l, n_right = Some r\<rparr>]\<rparr>)"
    using assms 1 2
    by (subst buildHuffmanTree_loop_st.simps)
       (simp add: Let_def case_prod_unfold p link_parent)
  moreover have "mset heap = add_mset l (add_mset r (mset h2))"
    using 1(2) 2(2) by simp
  ultimately show ?thesis
    by blast
qed

lemma tree_inv_loop:
  "tree_inv s0 (heap, s) \<Longrightarrow> buildHuffmanTree_loop_st (heap, s) = Inr hs' \<Longrightarrow> tree_inv s0 hs'"
proof (induction "length heap" arbitrary: heap s rule: less_induct)
  case less
  show ?case
  proof (cases "1 < length heap")
    case False
    with less.prems show ?thesis by (simp add: loop_st_stop)
  next
    case True
    from loop_st_step [OF True, of s] obtain l r h2 where
      m: "mset heap = add_mset l (add_mset r (mset h2))"
      and e: "buildHuffmanTree_loop_st (heap, s) =
             buildHuffmanTree_loop_st
               (insert_heap
                  (frequency_at (s\<lparr>node_store := node_store s @
                     [\<lparr>n_char = None, n_frequency = frequency_at s l + frequency_at s r,
                        n_left = Some l, n_right = Some r\<rparr>]\<rparr>))
                  h2 (length (node_store s)),
                s\<lparr>node_store := node_store s @
                     [\<lparr>n_char = None, n_frequency = frequency_at s l + frequency_at s r,
                        n_left = Some l, n_right = Some r\<rparr>]\<rparr>)"
      by blast
    let ?n = "\<lparr>n_char = None, n_frequency = frequency_at s l + frequency_at s r,
                n_left = Some l, n_right = Some r\<rparr>"
    let ?s = "s\<lparr>node_store := node_store s @ [?n]\<rparr>"
    let ?h = "insert_heap (frequency_at ?s) h2 (length (node_store s))"
    have sh: "set heap = insert l (insert r (set h2))"
      using m by (metis set_mset_add_mset_insert set_mset_mset)
    have inv: "prefix (node_store s0) (node_store s)" "freq_store s = freq_store s0"
      "code_store s = code_store s0" "\<forall>a\<in>set heap. a < length (node_store s)"
      "closed (node_store s)"
      using less.prems(1) by (simp_all add: tree_inv_def)
    have "closed (node_store s @ [?n])"
      using inv(4,5) sh by (intro closed_append) simp_all
    moreover have "prefix (node_store s0) (node_store s @ [?n])"
      using inv(1) by (rule prefix_prefix)
    moreover have "\<forall>a\<in>set ?h. a < length (node_store s @ [?n])"
      using inv(4) sh by (auto simp: set_insert_heap less_Suc_eq)
    ultimately have ti: "tree_inv s0 (?h, ?s)"
      using inv(2,3) by (simp add: tree_inv_def)
    have "size (mset heap) = Suc (Suc (size (mset h2)))"
      using m by simp
    then have len: "length ?h < length heap"
      by simp
    from less.hyps [OF len ti] less.prems(2) e show ?thesis
      by simp
  qed
qed

lemma buildHuffmanTree_st_frame:
  assumes "closed (node_store s)" and "buildHuffmanTree_st this s = Inr (this', s')"
  shows "prefix (node_store s) (node_store s') \<and> freq_store s' = freq_store s \<and>
         code_store s' = code_store s \<and> closed (node_store s') \<and>
         codes_ref this' = codes_ref this \<and> frequencies_ref this' = frequencies_ref this \<and>
         (\<forall>a. root_ref this' = Some a \<longrightarrow> a < length (node_store s'))"
proof -
  let ?start = "fold (\<lambda>(c, freq) (heap, s).
                          case new_HuffmanNode (Some c) freq s of
                            (a, s') \<Rightarrow> (insert_heap (frequency_at s') heap a, s'))
                    (freq_store s ! frequencies_ref this) ([], s)"
  have "tree_inv s ([], s)"
    using assms(1) by (simp add: tree_inv_def)
  then have st: "tree_inv s ?start"
    by (rule tree_inv_leaves)
  from assms(2) obtain heap' where
    l: "buildHuffmanTree_loop_st ?start = Inr (heap', s')"
    and t: "this' = this\<lparr>root_ref := fst (extractMin (frequency_at s') heap')\<rparr>"
    unfolding buildHuffmanTree_st_def by (auto simp: Let_def split: sum.splits)
  obtain h0 s0 where hs: "?start = (h0, s0)" by (cases ?start)
  from tree_inv_loop [of s h0 s0 "(heap', s')"] st l have ti: "tree_inv s (heap', s')"
    unfolding hs by simp
  have "a < length (node_store s')" if "root_ref this' = Some a" for a
  proof -
    from that t have e: "fst (extractMin (frequency_at s') heap') = Some a" by simp
    then have "heap' \<noteq> []" by auto
    from mset_extractMin [OF this, of "frequency_at s'"] e have "a \<in> set heap'"
      by (metis fst_conv option.inject set_mset_mset union_single_eq_member)
    with ti show ?thesis by (simp add: tree_inv_def)
  qed
  with ti t show ?thesis
    by (simp add: tree_inv_def)
qed

lemma compress_st_unfold:
  assumes "compress_st data this s = Some (Inr (Success_st r, this', s'))"
  shows "\<exists>s1 s2.
           buildHuffmanTree_st this (buildFrequencyMap_st data this s) = Inr (this', s1) \<and>
           generateCodes_st this' (root_ref this') []
             (s1\<lparr>code_store := (code_store s1)[codes_ref this' := []]\<rparr>) = Some s2 \<and>
           s' = s2\<lparr>freq_store := freq_store s2 @ [freq_store s2 ! frequencies_ref this'],
                    code_store := code_store s2 @ [code_store s2 ! codes_ref this']\<rparr> \<and>
           frequencies_at r = length (freq_store s2) \<and> codes_at r = length (code_store s2) \<and>
           tree_at r = root_ref this' \<and> encoded_st r = encode_st data this' s2"
  using assms unfolding compress_st_def
  by (auto simp: Let_def bind_eq_Some_conv split: if_splits sum.splits prod.splits)

lemma compress_st_frame:
  assumes wf: "wf_state this s"
    and c: "compress_st data this s = Some (Inr (Success_st r, this', s'))"
  shows "extends this s s'" and "wf_state this' s'"
    and "codes_ref this' = codes_ref this" and "frequencies_ref this' = frequencies_ref this"
    and "length (freq_store s) \<le> frequencies_at r" and "frequencies_at r < length (freq_store s')"
    and "length (code_store s) \<le> codes_at r" and "codes_at r < length (code_store s')"
    and "\<And>a. tree_at r = Some a \<Longrightarrow> a < length (node_store s')"
proof -
  let ?sA = "buildFrequencyMap_st data this s"
  from compress_st_unfold [OF c] obtain s1 s2 where
    b: "buildHuffmanTree_st this ?sA = Inr (this', s1)"
    and g: "generateCodes_st this' (root_ref this') []
             (s1\<lparr>code_store := (code_store s1)[codes_ref this' := []]\<rparr>) = Some s2"
    and s': "s' = s2\<lparr>freq_store := freq_store s2 @ [freq_store s2 ! frequencies_ref this'],
                    code_store := code_store s2 @ [code_store s2 ! codes_ref this']\<rparr>"
    and r: "frequencies_at r = length (freq_store s2)" "codes_at r = length (code_store s2)"
           "tree_at r = root_ref this'"
    by blast
  have A: "node_store ?sA = node_store s" "code_store ?sA = code_store s"
    "length (freq_store ?sA) = length (freq_store s)"
    "\<And>a. a \<noteq> frequencies_ref this \<Longrightarrow> freq_store ?sA ! a = freq_store s ! a"
    using buildFrequencyMap_st_frame [of data this s] by simp_all
  have "closed (node_store ?sA)"
    using wf A(1) by (simp add: wf_state_def)
  from buildHuffmanTree_st_frame [OF this b] have B:
    "prefix (node_store ?sA) (node_store s1)" "freq_store s1 = freq_store ?sA"
    "code_store s1 = code_store ?sA" "closed (node_store s1)"
    "codes_ref this' = codes_ref this" "frequencies_ref this' = frequencies_ref this"
    "\<And>a. root_ref this' = Some a \<Longrightarrow> a < length (node_store s1)"
    by simp_all
  from generateCodes_st_frame [OF g] have G:
    "node_store s2 = node_store s1" "freq_store s2 = freq_store s1"
    "length (code_store s2) = length (code_store s1)"
    "\<And>a. a \<noteq> codes_ref this' \<Longrightarrow> code_store s2 ! a = code_store s1 ! a"
    by (simp_all add: codes_only_def)
  show "codes_ref this' = codes_ref this" "frequencies_ref this' = frequencies_ref this"
    by (fact B)+
  show "length (freq_store s) \<le> frequencies_at r" "frequencies_at r < length (freq_store s')"
    "length (code_store s) \<le> codes_at r" "codes_at r < length (code_store s')"
    using r s' A B G by simp_all
  show "a < length (node_store s')" if "tree_at r = Some a" for a
    using that r(3) B(7) [of a] G(1) s' by simp
  show "wf_state this' s'"
    using wf A B G s' by (simp add: wf_state_def)
  show "extends this s s'"
    unfolding extends_def
  proof (intro conjI allI impI)
    show "prefix (node_store s) (node_store s')"
      using B(1) A(1) G(1) s' by simp
    show "length (freq_store s) \<le> length (freq_store s')"
      using A B G s' by simp
    show "length (code_store s) \<le> length (code_store s')"
      using A B G s' by simp
    fix a assume "a < length (freq_store s)" "a \<noteq> frequencies_ref this"
    then show "freq_store s' ! a = freq_store s ! a"
      using A B G s' by (simp add: nth_append)
  next
    fix a assume "a < length (code_store s)" "a \<noteq> codes_ref this"
    then show "code_store s' ! a = code_store s ! a"
      using A B G s' by (simp add: nth_append)
  qed
qed

lemma read_tree_prefix:
  assumes "closed ns" and "prefix ns ns'"
  shows "a < length ns \<Longrightarrow> read_tree ns' a = read_tree ns a"
proof (induction a rule: less_induct)
  case (less a)
  from assms(2) obtain zs where ns': "ns' = ns @ zs"
    by (auto simp: prefix_def)
  have n: "ns' ! a = ns ! a"
    using less.prems by (simp add: ns' nth_append)
  have IH: "read_tree ns' b = read_tree ns b" if "b < a" for b
    using less.IH [OF that] that less.prems by simp
  show ?case
    by (subst read_tree.simps, subst (2) read_tree.simps)
       (auto simp: n IH split: option.splits)
qed

lemma example_constructor: "new_HuffmanCoding_st empty_store = (example_this, example_store0)"
  by (simp add: new_HuffmanCoding_st_def empty_store_def example_this_def example_store0_def)

lemma example_first_call:
  "compress_st ''AABBBCCCC'' example_this example_store0 =
     Some (Inr (Success_st
       \<lparr>original_st = ''AABBBCCCC'', encoded_st = ''10101111110000'',
          originalBits_st = 72, compressedBits_st = 14,
          frequencies_at = 1, codes_at = 1, tree_at = Some 4\<rparr>,
       \<lparr>root_ref = Some 4, codes_ref = 0, frequencies_ref = 0\<rparr>, example_store1))"
  unfolding example_this_def example_store0_def example_store1_def example_nodes1_def
  by code_simp

lemma example_second_call:
  "compress_st ''XYX'' \<lparr>root_ref = Some 4, codes_ref = 0, frequencies_ref = 0\<rparr> example_store1 =
     Some (Inr (Success_st
       \<lparr>original_st = ''XYX'', encoded_st = ''101'',
          originalBits_st = 24, compressedBits_st = 3,
          frequencies_at = 2, codes_at = 2, tree_at = Some 7\<rparr>,
       \<lparr>root_ref = Some 7, codes_ref = 0, frequencies_ref = 0\<rparr>, example_store2))"
  unfolding example_store1_def example_store2_def example_nodes1_def
  by code_simp

lemma example_wf: "wf_state example_this example_store0"
  by (simp add: wf_state_def example_this_def example_store0_def closed_def)

subsection \<open>The store model computes what the value model computes\<close>

text \<open>
  The heap operations look at an element only through its frequency, so they commute with
  any map of the elements that keeps frequencies; here the map reads the tree below an
  address.
\<close>

lemma swap_map: "i < length h \<Longrightarrow> j < length h \<Longrightarrow> swap (map g h) i j = map g (swap h i j)"
  by (simp add: swap_def map_update)

lemma bubbleUp_map:
  "k < length h \<Longrightarrow> bubbleUp fr (map g h) k = map g (bubbleUp (\<lambda>x. fr (g x)) h k)"
proof (induction k arbitrary: h rule: less_induct)
  case (less k)
  show ?case
  proof (cases "0 < k \<and> fr (g (h ! k)) < fr (g (h ! parent_index k))")
    case True
    then have pk: "parent_index k < k" by (simp add: parent_index_less)
    then have pl: "parent_index k < length h" using less.prems by simp
    have "bubbleUp fr (map g h) k = bubbleUp fr (swap (map g h) k (parent_index k)) (parent_index k)"
      using True less.prems pl by (subst bubbleUp_unfold) simp
    also have "\<dots> = bubbleUp fr (map g (swap h k (parent_index k))) (parent_index k)"
      using less.prems pl by (simp add: swap_map)
    also have "\<dots> = map g (bubbleUp (\<lambda>x. fr (g x)) (swap h k (parent_index k)) (parent_index k))"
      using less.IH [OF pk, of "swap h k (parent_index k)"] pl by simp
    also have "\<dots> = map g (bubbleUp (\<lambda>x. fr (g x)) h k)"
      using True by (subst (2) bubbleUp_unfold) simp
    finally show ?thesis .
  next
    case False
    have pl: "0 < k \<Longrightarrow> parent_index k < length h"
      using parent_index_less [of k] less.prems by simp
    have "bubbleUp fr (map g h) k = map g h"
      using False less.prems pl by (subst bubbleUp_unfold) auto
    moreover have "bubbleUp (\<lambda>x. fr (g x)) h k = h"
      using False by (subst bubbleUp_unfold) auto
    ultimately show ?thesis by simp
  qed
qed

lemma smallest_of_map: "smallest_of fr (map g h) k = smallest_of (\<lambda>x. fr (g x)) h k"
  by (auto simp: smallest_of_def Let_def)

lemma bubbleDown_map:
  "bubbleDown fr (map g h) k = map g (bubbleDown (\<lambda>x. fr (g x)) h k)"
proof (induction "length h - k" arbitrary: h k rule: less_induct)
  case less
  let ?s = "smallest_of (\<lambda>x. fr (g x)) h k"
  show ?case
  proof (cases "?s = k")
    case True
    then show ?thesis
      by (subst bubbleDown_unfold, subst (2) bubbleDown_unfold) (simp add: smallest_of_map)
  next
    case False
    from smallest_of_cases [of "\<lambda>x. fr (g x)" h k] False have s: "k < ?s" "?s < length h" by auto
    then have m: "length (swap h k ?s) - ?s < length h - k" by simp
    have "bubbleDown fr (map g h) k = bubbleDown fr (swap (map g h) k ?s) ?s"
      using False by (subst bubbleDown_unfold) (simp add: smallest_of_map)
    also have "\<dots> = bubbleDown fr (map g (swap h k ?s)) ?s"
      using s by (simp add: swap_map)
    also have "\<dots> = map g (bubbleDown (\<lambda>x. fr (g x)) (swap h k ?s) ?s)"
      by (rule less.hyps [OF m])
    also have "\<dots> = map g (bubbleDown (\<lambda>x. fr (g x)) h k)"
      using False by (subst (2) bubbleDown_unfold) simp
    finally show ?thesis .
  qed
qed

lemma insert_heap_map:
  "insert_heap fr (map g h) (g x) = map g (insert_heap (\<lambda>x. fr (g x)) h x)"
  using bubbleUp_map [of "length h" "h @ [x]" fr g] by (simp add: insert_heap_def)

lemma extractMin_map:
  "extractMin fr (map g h) =
     (map_option g (fst (extractMin (\<lambda>x. fr (g x)) h)), map g (snd (extractMin (\<lambda>x. fr (g x)) h)))"
proof (cases "length h \<le> 1")
  case True
  then show ?thesis
    by (cases h) (auto simp: extractMin_def)
next
  case False
  then have "h \<noteq> []" by auto
  then have "(butlast (map g h))[0 := last (map g h)] = map g ((butlast h)[0 := last h])"
    by (simp add: map_butlast map_update last_map)
  with False show ?thesis
    by (simp add: extractMin_def Let_def bubbleDown_map nth_map)
qed


lemma frequency_read_tree: "frequency (read_tree ns a) = n_frequency (ns ! a)"
  by (subst read_tree.simps) simp

lemma frequency_at_read_tree: "(\<lambda>x. frequency (read_tree (node_store s) x)) = frequency_at s"
  by (simp add: fun_eq_iff frequency_at_def frequency_read_tree)

lemma read_tree_append:
  "closed ns \<Longrightarrow> a < length ns \<Longrightarrow> read_tree (ns @ zs) a = read_tree ns a"
  by (rule read_tree_prefix) simp_all

lemma read_tree_new:
  assumes "\<And>b. n_left n = Some b \<Longrightarrow> b < length ns" and "\<And>b. n_right n = Some b \<Longrightarrow> b < length ns"
  shows "read_tree (ns @ [n]) (length ns) =
           HuffmanNode (n_char n) (n_frequency n)
             (map_option (read_tree (ns @ [n])) (n_left n))
             (map_option (read_tree (ns @ [n])) (n_right n))"
  using assms by (subst read_tree.simps) (auto split: option.splits)

lemma buildFrequencyMap_st_contents:
  assumes "frequencies_ref this < length (freq_store s)"
  shows "freq_store (buildFrequencyMap_st data this s) ! frequencies_ref this = fold count_step data []"
proof -
  let ?f = "\<lambda>c s. s\<lparr>freq_store := (freq_store s)[frequencies_ref this :=
                      map_set (freq_store s ! frequencies_ref this) c
                        ((case map_get (freq_store s ! frequencies_ref this) c of
                            None \<Rightarrow> 0 | Some v \<Rightarrow> v) + 1)]\<rparr>"
  have "frequencies_ref this < length (freq_store s0) \<Longrightarrow>
        freq_store (fold ?f data s0) ! frequencies_ref this
          = fold count_step data (freq_store s0 ! frequencies_ref this)" for s0
    by (induction data arbitrary: s0) (simp_all add: count_step_def)
  from this [of "s\<lparr>freq_store := (freq_store s)[frequencies_ref this := []]\<rparr>"] assms
  show ?thesis
    unfolding buildFrequencyMap_st_def by simp
qed

lemma leaves_refine:
  assumes "tree_inv s0 (heap, s)"
  shows "map (read_tree (node_store (snd (fold (\<lambda>(c, freq) (heap, s).
                          case new_HuffmanNode (Some c) freq s of
                            (a, s') \<Rightarrow> (insert_heap (frequency_at s') heap a, s')) fm (heap, s)))))
           (fst (fold (\<lambda>(c, freq) (heap, s).
                          case new_HuffmanNode (Some c) freq s of
                            (a, s') \<Rightarrow> (insert_heap (frequency_at s') heap a, s')) fm (heap, s)))
         = fold (\<lambda>(c, freq) heap. insert_heap frequency heap (HuffmanNode (Some c) freq None None))
             fm (map (read_tree (node_store s)) heap)"
  using assms
proof (induction fm arbitrary: heap s)
  case Nil
  show ?case by simp
next
  case (Cons e fm)
  obtain c freq where e: "e = (c, freq)" by (cases e)
  let ?n = "\<lparr>n_char = Some c, n_frequency = freq, n_left = None, n_right = None\<rparr>"
  let ?s = "s\<lparr>node_store := node_store s @ [?n]\<rparr>"
  let ?h = "insert_heap (frequency_at ?s) heap (length (node_store s))"
  have step: "(case new_HuffmanNode (Some c) freq s of
                 (a, s') \<Rightarrow> (insert_heap (frequency_at s') heap a, s')) = (?h, ?s)"
    by (simp add: new_HuffmanNode_def)
  have ti: "tree_inv s0 (?h, ?s)"
    using tree_inv_add_leaf [OF Cons.prems, of c freq] unfolding step .
  have cl: "closed (node_store s)" and rg: "\<forall>a\<in>set heap. a < length (node_store s)"
    using Cons.prems by (simp_all add: tree_inv_def)
  have old: "map (read_tree (node_store ?s)) heap = map (read_tree (node_store s)) heap"
    using rg cl by (simp add: read_tree_append)
  have new: "read_tree (node_store ?s) (length (node_store s)) = HuffmanNode (Some c) freq None None"
    using read_tree_new [of ?n "node_store s"] by simp
  have "map (read_tree (node_store ?s)) ?h
          = insert_heap frequency (map (read_tree (node_store ?s)) heap)
              (read_tree (node_store ?s) (length (node_store s)))"
    using insert_heap_map [of frequency "read_tree (node_store ?s)" heap "length (node_store s)"]
    unfolding frequency_at_read_tree by simp
  then have "map (read_tree (node_store ?s)) ?h
          = insert_heap frequency (map (read_tree (node_store s)) heap) (HuffmanNode (Some c) freq None None)"
    unfolding old new .
  with Cons.IH [OF ti] show ?case
    by (simp add: e step)
qed


lemma loop_st_unfold:
  assumes "1 < length heap"
    and "extractMin (frequency_at s) heap = (Some l, h1)"
    and "extractMin (frequency_at s) h1 = (Some r, h2)"
  shows "buildHuffmanTree_loop_st (heap, s) =
           buildHuffmanTree_loop_st
             (insert_heap
                (frequency_at (s\<lparr>node_store := node_store s @
                   [\<lparr>n_char = None, n_frequency = frequency_at s l + frequency_at s r,
                      n_left = Some l, n_right = Some r\<rparr>]\<rparr>))
                h2 (length (node_store s)),
              s\<lparr>node_store := node_store s @
                   [\<lparr>n_char = None, n_frequency = frequency_at s l + frequency_at s r,
                      n_left = Some l, n_right = Some r\<rparr>]\<rparr>)"
proof -
  have p: "fst (new_HuffmanNode c f s) = length (node_store s)" for c f
    by (simp add: new_HuffmanNode_def)
  show ?thesis
    using assms
    by (subst buildHuffmanTree_loop_st.simps)
       (simp add: Let_def case_prod_unfold p link_parent)
qed

lemma loop_unfold:
  assumes "1 < length heap"
    and "extractMin frequency heap = (Some l, h1)"
    and "extractMin frequency h1 = (Some r, h2)"
  shows "buildHuffmanTree_loop heap =
           buildHuffmanTree_loop
             (insert_heap frequency h2 (HuffmanNode None (frequency l + frequency r) (Some l) (Some r)))"
  using assms by (subst buildHuffmanTree_loop.simps) (simp add: Let_def)

lemma tree_inv_merge:
  assumes "tree_inv s0 (heap, s)" and m: "mset heap = add_mset l (add_mset r (mset h2))"
  shows "tree_inv s0
           (insert_heap
              (frequency_at (s\<lparr>node_store := node_store s @
                 [\<lparr>n_char = None, n_frequency = f, n_left = Some l, n_right = Some r\<rparr>]\<rparr>))
              h2 (length (node_store s)),
            s\<lparr>node_store := node_store s @
                 [\<lparr>n_char = None, n_frequency = f, n_left = Some l, n_right = Some r\<rparr>]\<rparr>)"
proof -
  let ?n = "\<lparr>n_char = None, n_frequency = f, n_left = Some l, n_right = Some r\<rparr>"
  have sh: "set heap = insert l (insert r (set h2))"
    using m by (metis set_mset_add_mset_insert set_mset_mset)
  have inv: "prefix (node_store s0) (node_store s)" "freq_store s = freq_store s0"
    "code_store s = code_store s0" "\<forall>a\<in>set heap. a < length (node_store s)"
    "closed (node_store s)"
    using assms(1) by (simp_all add: tree_inv_def)
  have "closed (node_store s @ [?n])"
    using inv(4,5) sh by (intro closed_append) simp_all
  moreover have "prefix (node_store s0) (node_store s @ [?n])"
    using inv(1) by (rule prefix_prefix)
  ultimately show ?thesis
    using inv(2,3,4) sh by (auto simp: tree_inv_def set_insert_heap less_Suc_eq)
qed

lemma loop_refine:
  assumes "tree_inv s0 (heap, s)"
  shows "\<exists>h' s'. buildHuffmanTree_loop_st (heap, s) = Inr (h', s') \<and> tree_inv s0 (h', s') \<and>
           buildHuffmanTree_loop (map (read_tree (node_store s)) heap)
             = Inr (map (read_tree (node_store s')) h')"
  using assms
proof (induction "length heap" arbitrary: heap s rule: less_induct)
  case less
  let ?g = "read_tree (node_store s)"
  show ?case
  proof (cases "1 < length heap")
    case False
    with less.prems show ?thesis by (simp add: loop_st_stop loop_stop)
  next
    case True
    then have "heap \<noteq> []" by auto
    then obtain l h1 where 1: "extractMin (frequency_at s) heap = (Some l, h1)"
      "mset heap = add_mset l (mset h1)"
      using mset_extractMin by blast
    have "length h1 = length heap - 1"
      using length_extractMin [of "frequency_at s" heap] 1 by simp
    with True have "h1 \<noteq> []" by auto
    then obtain r h2 where 2: "extractMin (frequency_at s) h1 = (Some r, h2)"
      "mset h1 = add_mset r (mset h2)"
      using mset_extractMin by blast
    have m: "mset heap = add_mset l (add_mset r (mset h2))"
      using 1(2) 2(2) by simp
    let ?n = "\<lparr>n_char = None, n_frequency = frequency_at s l + frequency_at s r,
                n_left = Some l, n_right = Some r\<rparr>"
    let ?s = "s\<lparr>node_store := node_store s @ [?n]\<rparr>"
    let ?h = "insert_heap (frequency_at ?s) h2 (length (node_store s))"
    have ti: "tree_inv s0 (?h, ?s)"
      using less.prems m by (rule tree_inv_merge)
    have "size (mset heap) = Suc (Suc (size (mset h2)))"
      using m by simp
    then have len: "length ?h < length heap"
      by simp
    from less.hyps [OF len ti] obtain h' s' where
      r: "buildHuffmanTree_loop_st (?h, ?s) = Inr (h', s')" "tree_inv s0 (h', s')"
         "buildHuffmanTree_loop (map (read_tree (node_store ?s)) ?h) = Inr (map (read_tree (node_store s')) h')"
      by blast
    have a: "buildHuffmanTree_loop_st (heap, s) = Inr (h', s')"
      using loop_st_unfold [OF True 1(1) 2(1)] r(1) by simp
    have cl: "closed (node_store s)" and rg: "\<forall>a\<in>set heap. a < length (node_store s)"
      using less.prems by (simp_all add: tree_inv_def)
    have sh: "set heap = insert l (insert r (set h2))"
      using m by (metis set_mset_add_mset_insert set_mset_mset)
    have old: "read_tree (node_store ?s) x = ?g x" if "x \<in> set heap" for x
      using that rg cl by (simp add: read_tree_append)
    have e1: "extractMin frequency (map ?g heap) = (Some (?g l), map ?g h1)"
      using extractMin_map [of frequency ?g heap] 1(1) unfolding frequency_at_read_tree by simp
    have e2: "extractMin frequency (map ?g h1) = (Some (?g r), map ?g h2)"
      using extractMin_map [of frequency ?g h1] 2(1) unfolding frequency_at_read_tree by simp
    have new: "read_tree (node_store ?s) (length (node_store s)) =
                 HuffmanNode None (frequency (?g l) + frequency (?g r)) (Some (?g l)) (Some (?g r))"
      using read_tree_new [of ?n "node_store s"] rg sh old
      by (simp add: frequency_read_tree frequency_at_def)
    have "map (read_tree (node_store ?s)) ?h
            = insert_heap frequency (map (read_tree (node_store ?s)) h2)
                (read_tree (node_store ?s) (length (node_store s)))"
      using insert_heap_map [of frequency "read_tree (node_store ?s)" h2 "length (node_store s)"]
      unfolding frequency_at_read_tree by simp
    also have "map (read_tree (node_store ?s)) h2 = map ?g h2"
      using old sh by simp
    finally have "map (read_tree (node_store ?s)) ?h
            = insert_heap frequency (map ?g h2)
                (HuffmanNode None (frequency (?g l) + frequency (?g r)) (Some (?g l)) (Some (?g r)))"
      unfolding new .
    moreover have "buildHuffmanTree_loop (map ?g heap) =
            buildHuffmanTree_loop (insert_heap frequency (map ?g h2)
                (HuffmanNode None (frequency (?g l) + frequency (?g r)) (Some (?g l)) (Some (?g r))))"
      using True e1 e2 by (intro loop_unfold) simp_all
    ultimately have "buildHuffmanTree_loop (map ?g heap) = Inr (map (read_tree (node_store s')) h')"
      using r(3) by simp
    with a r(2) show ?thesis by blast
  qed
qed


lemma buildHuffmanTree_st_refine:
  assumes "closed (node_store s)" and "frequencies this0 = freq_store s ! frequencies_ref this"
  shows "\<exists>rr s'. buildHuffmanTree_st this s = Inr (this\<lparr>root_ref := rr\<rparr>, s') \<and>
           buildHuffmanTree this0 = Inr (this0\<lparr>root := map_option (read_tree (node_store s')) rr\<rparr>)"
proof -
  let ?step = "\<lambda>(c, freq) (heap, s).
                 case new_HuffmanNode (Some c) freq s of
                   (a, s') \<Rightarrow> (insert_heap (frequency_at s') heap a, s')"
  let ?fm = "freq_store s ! frequencies_ref this"
  let ?start = "fold ?step ?fm ([], s)"
  obtain h0 s1 where st: "?start = (h0, s1)" by (cases ?start)
  have t0: "tree_inv s ([], s)"
    using assms(1) by (simp add: tree_inv_def)
  then have "tree_inv s ?start" by (rule tree_inv_leaves)
  then have ti: "tree_inv s (h0, s1)" unfolding st .
  have lv: "map (read_tree (node_store s1)) h0
              = fold (\<lambda>(c, freq) heap. insert_heap frequency heap (HuffmanNode (Some c) freq None None)) ?fm []"
    using leaves_refine [OF t0, of ?fm] unfolding st by simp
  from loop_refine [OF ti] obtain h' s' where
    l: "buildHuffmanTree_loop_st (h0, s1) = Inr (h', s')"
       "buildHuffmanTree_loop (map (read_tree (node_store s1)) h0) = Inr (map (read_tree (node_store s')) h')"
    by blast
  have x: "fst (extractMin frequency (map (read_tree (node_store s')) h'))
             = map_option (read_tree (node_store s')) (fst (extractMin (frequency_at s') h'))"
    using extractMin_map [of frequency "read_tree (node_store s')" h']
    unfolding frequency_at_read_tree by simp
  have "buildHuffmanTree_st this s = Inr (this\<lparr>root_ref := fst (extractMin (frequency_at s') h')\<rparr>, s')"
    unfolding buildHuffmanTree_st_def Let_def st l(1) by simp
  moreover have "buildHuffmanTree this0 =
      Inr (this0\<lparr>root := map_option (read_tree (node_store s')) (fst (extractMin (frequency_at s') h'))\<rparr>)"
    unfolding buildHuffmanTree_def Let_def assms(2) lv [symmetric] l(2) by (simp add: x)
  ultimately show ?thesis by blast
qed

lemma generateCodes_st_refine:
  assumes "closed ns"
  shows "a < length ns \<Longrightarrow> node_store s = ns \<Longrightarrow> codes_ref this < length (code_store s) \<Longrightarrow>
     generateCodes_st this (Some a) code s =
       Some (s\<lparr>code_store := (code_store s)[codes_ref this :=
               generateCodes (Some (read_tree ns a)) code (code_store s ! codes_ref this)]\<rparr>)"
proof (induction a arbitrary: code s rule: less_induct)
  case (less a)
  let ?n = "ns ! a"
  let ?c = "codes_ref this"
  have ch: "b < a" if "n_left ?n = Some b \<or> n_right ?n = Some b" for b
    using assms less.prems(1) that unfolding closed_def by blast
  have rt: "read_tree ns a =
      HuffmanNode (n_char ?n) (n_frequency ?n)
        (map_option (read_tree ns) (n_left ?n)) (map_option (read_tree ns) (n_right ?n))"
    using ch by (subst read_tree.simps) (auto split: option.splits)
  have child: "generateCodes_st this child code' s' =
       Some (s'\<lparr>code_store := (code_store s')[?c :=
               generateCodes (map_option (read_tree ns) child) code' (code_store s' ! ?c)]\<rparr>)"
    if "child = n_left ?n \<or> child = n_right ?n" "node_store s' = ns" "?c < length (code_store s')"
    for child code' s'
  proof (cases child)
    case None
    then show ?thesis
      by (subst generateCodes_st.simps) simp
  next
    case (Some b)
    with that(1) have "b < a" using ch [of b] by auto
    from less.IH [OF this _ that(2,3)] less.prems(1) \<open>b < a\<close> Some show ?thesis
      by simp
  qed
  show ?case
  proof (cases "n_left ?n = None \<and> n_right ?n = None")
    case True
    then show ?thesis
      using less.prems(2) by (subst generateCodes_st.simps) (simp add: rt)
  next
    case False
    let ?s1 = "s\<lparr>code_store := (code_store s)[?c :=
               generateCodes (map_option (read_tree ns) (n_left ?n)) (code @ ''0'') (code_store s ! ?c)]\<rparr>"
    have 1: "generateCodes_st this (n_left ?n) (code @ ''0'') s = Some ?s1"
      using less.prems by (intro child) simp_all
    have 2: "generateCodes_st this (n_right ?n) (code @ ''1'') ?s1 =
       Some (?s1\<lparr>code_store := (code_store ?s1)[?c :=
               generateCodes (map_option (read_tree ns) (n_right ?n)) (code @ ''1'') (code_store ?s1 ! ?c)]\<rparr>)"
      using less.prems by (intro child) simp_all
    have "generateCodes_st this (Some a) code s =
            Option.bind (generateCodes_st this (n_left ?n) (code @ ''0'') s)
              (\<lambda>s1. generateCodes_st this (n_right (node_store s1 ! a)) (code @ ''1'') s1)"
      by (subst generateCodes_st.simps) (simp add: False less.prems(2))
    also have "\<dots> = generateCodes_st this (n_right ?n) (code @ ''1'') ?s1"
      unfolding 1 using less.prems(2) by simp
    finally show ?thesis
      unfolding 2 using less.prems(3) by (simp add: rt False)
  qed
qed


lemma generateCodes_st_refine_root:
  assumes "closed (node_store s)" and "\<And>a. node = Some a \<Longrightarrow> a < length (node_store s)"
    and "codes_ref this < length (code_store s)"
  shows "generateCodes_st this node code s =
       Some (s\<lparr>code_store := (code_store s)[codes_ref this :=
               generateCodes (map_option (read_tree (node_store s)) node) code
                 (code_store s ! codes_ref this)]\<rparr>)"
proof (cases node)
  case None
  then show ?thesis by (subst generateCodes_st.simps) simp
next
  case (Some a)
  with generateCodes_st_refine [OF assms(1) assms(2) [OF Some] refl assms(3), of code]
  show ?thesis by simp
qed

lemma encode_st_refine:
  "code_store s ! codes_ref this = codes this0 \<Longrightarrow> encode_st data this s = encode data this0"
  by (simp add: encode_st_def encode_def)

text \<open>
  On a well-formed state and a non-empty input the store model returns, and what it returns
  is what the value model returns: the same strings and numbers, and maps and a tree in the
  store whose contents are the maps and the tree of the value model.
\<close>

lemma compress_st_refines:
  assumes wf: "wf_state this s" and ne: "data \<noteq> []"
  shows "\<exists>r this' s' r0 this0'.
     compress_st data this s = Some (Inr (Success_st r, this', s')) \<and>
     compress data this0 = Inr (Success r0, this0') \<and>
     original_st r = original r0 \<and> encoded_st r = encoded r0 \<and>
     originalBits_st r = originalBits r0 \<and> compressedBits_st r = compressedBits r0 \<and>
     freq_store s' ! frequencies_at r = result_frequencies r0 \<and>
     code_store s' ! codes_at r = result_codes r0 \<and>
     map_option (read_tree (node_store s')) (tree_at r) = tree r0 \<and>
     freq_store s' ! frequencies_ref this' = frequencies this0' \<and>
     code_store s' ! codes_ref this' = codes this0' \<and>
     map_option (read_tree (node_store s')) (root_ref this') = root this0'"
proof -
  let ?sA = "buildFrequencyMap_st data this s"
  let ?X = "buildFrequencyMap data this0"
  let ?c = "codes_ref this" and ?f = "frequencies_ref this"
  from wf have w: "?f < length (freq_store s)" "?c < length (code_store s)" "closed (node_store s)"
    by (simp_all add: wf_state_def)
  have A: "node_store ?sA = node_store s" "code_store ?sA = code_store s"
    "length (freq_store ?sA) = length (freq_store s)"
    using buildFrequencyMap_st_frame [of data this s] by simp_all
  have fA: "freq_store ?sA ! ?f = fold count_step data []"
    using w(1) by (rule buildFrequencyMap_st_contents)
  have fX: "frequencies ?X = freq_store ?sA ! ?f"
    unfolding fA by (rule frequencies_buildFrequencyMap)
  have clA: "closed (node_store ?sA)"
    using w(3) A(1) by simp
  from buildHuffmanTree_st_refine [OF clA fX] obtain rr s1 where
    b: "buildHuffmanTree_st this ?sA = Inr (this\<lparr>root_ref := rr\<rparr>, s1)"
    and b0: "buildHuffmanTree ?X = Inr (?X\<lparr>root := map_option (read_tree (node_store s1)) rr\<rparr>)"
    by blast
  let ?thisB = "this\<lparr>root_ref := rr\<rparr>"
  from buildHuffmanTree_st_frame [OF clA b] have B:
    "freq_store s1 = freq_store ?sA" "code_store s1 = code_store ?sA" "closed (node_store s1)"
    "\<And>a. rr = Some a \<Longrightarrow> a < length (node_store s1)"
    by simp_all
  let ?sB = "s1\<lparr>code_store := (code_store s1)[?c := []]\<rparr>"
  let ?t = "map_option (read_tree (node_store s1)) rr"
  let ?codes = "generateCodes ?t [] []"
  let ?sC = "s1\<lparr>code_store := (code_store s1)[?c := ?codes]\<rparr>"
  have cl: "?c < length (code_store s1)"
    using w(2) B(2) A(2) by simp
  have g: "generateCodes_st ?thisB (root_ref ?thisB) [] ?sB = Some ?sC"
    using generateCodes_st_refine_root [of ?sB rr ?thisB "[]"] B(3,4) cl by simp
  let ?this0' = "?X\<lparr>root := ?t, codes := ?codes\<rparr>"
  have e: "encode_st data ?thisB ?sC = encode data ?this0'"
    using cl by (intro encode_st_refine) simp
  let ?s' = "?sC\<lparr>freq_store := freq_store ?sC @ [freq_store ?sC ! ?f],
                  code_store := code_store ?sC @ [code_store ?sC ! ?c]\<rparr>"
  let ?r = "\<lparr>original_st = data, encoded_st = encode data ?this0',
             originalBits_st = length data * 8,
             compressedBits_st = length (encode data ?this0'),
             frequencies_at = length (freq_store ?sC), codes_at = length (code_store ?sC),
             tree_at = rr\<rparr>"
  let ?rv = "\<lparr>original = data, encoded = encode data ?this0',
              originalBits = length data * 8,
              compressedBits = length (encode data ?this0'),
              result_frequencies = frequencies ?this0', result_codes = codes ?this0',
              tree = root ?this0'\<rparr>"
  have g': "generateCodes_st ?thisB rr [] ?sB = Some ?sC"
    using g by simp
  have c2: "compress_st data this s = Some (Inr (Success_st ?r, ?thisB, ?s'))"
    unfolding compress_st_def using ne by (simp add: b g' e Let_def)
  have c0: "compress data this0 = Inr (Success ?rv, ?this0')"
    unfolding compress_def using ne by (simp add: b0 Let_def)
  have fl: "?f < length (freq_store s1)"
    using w(1) B(1) A(3) by simp
  have 1: "freq_store ?s' ! frequencies_at ?r = result_frequencies ?rv"
    using fX B(1) by (simp add: nth_append)
  have 2: "code_store ?s' ! codes_at ?r = result_codes ?rv"
    using cl by (simp add: nth_append)
  have 3: "freq_store ?s' ! frequencies_ref ?thisB = frequencies ?this0'"
    using fX B(1) fl by (simp add: nth_append)
  have 4: "code_store ?s' ! codes_ref ?thisB = codes ?this0'"
    using cl by (simp add: nth_append)
  show ?thesis
    apply (rule exI [of _ ?r], rule exI [of _ ?thisB], rule exI [of _ ?s'])
    apply (rule exI [of _ ?rv], rule exI [of _ ?this0'])
    apply (intro conjI c2 c0 1 2 3 4)
    apply simp_all
    done
qed

subsection \<open>compress does not read the previous state\<close>

lemma compress_fresh_state:
  "data \<noteq> [] \<Longrightarrow> compress data this = compress data new_HuffmanCoding"
  by (cases this)
     (simp add: compress_def buildHuffmanTree_def buildFrequencyMap_def new_HuffmanCoding_def
        Let_def split: sum.splits)

subsection \<open>Empty input\<close>

text \<open>
  Claim C5. \<open>compress\<close> on a sequence of length zero returns the failure object
  (\<open>success: false\<close>, \<open>error: 'No data to compress'\<close>): it does not throw, the object holds
  no tree, code table or encoded string, and the state of the coder is left as it was.
\<close>

theorem compress_empty_input:
  "compress [] this = Inr (Failure ''No data to compress'', this)"
  by (simp add: compress_def)

subsection \<open>Worked examples\<close>

lemma compress_AABBBCCCC:
  "compress ''AABBBCCCC'' new_HuffmanCoding =
     Inr (Success
       \<lparr>original = ''AABBBCCCC'', encoded = ''10101111110000'',
          originalBits = 72, compressedBits = 14,
          result_frequencies = [(CHR ''A'', 2), (CHR ''B'', 3), (CHR ''C'', 4)],
          result_codes = [(Some CHR ''C'', ''0''), (Some CHR ''A'', ''10''), (Some CHR ''B'', ''11'')],
          tree = Some (HuffmanNode None 9
                   (Some (HuffmanNode (Some CHR ''C'') 4 None None))
                   (Some (HuffmanNode None 5
                     (Some (HuffmanNode (Some CHR ''A'') 2 None None))
                     (Some (HuffmanNode (Some CHR ''B'') 3 None None)))))\<rparr>,
      \<lparr>root = Some (HuffmanNode None 9
                   (Some (HuffmanNode (Some CHR ''C'') 4 None None))
                   (Some (HuffmanNode None 5
                     (Some (HuffmanNode (Some CHR ''A'') 2 None None))
                     (Some (HuffmanNode (Some CHR ''B'') 3 None None))))),
         codes = [(Some CHR ''C'', ''0''), (Some CHR ''A'', ''10''), (Some CHR ''B'', ''11'')],
         frequencies = [(CHR ''A'', 2), (CHR ''B'', 3), (CHR ''C'', 4)]\<rparr>)"
  by code_simp

text \<open>
  Claim C8. On \<open>AABBBCCCC\<close> the frequencies are A:2, B:3, C:4; the code of C is no longer
  than the code of A and no longer than the code of B; the encoded length is 14 bits, below
  the 72 bits of the fixed-width baseline.
\<close>

theorem compress_AABBBCCCC_lengths:
  "\<exists>r this' cA cB cC.
     compress ''AABBBCCCC'' this = Inr (Success r, this') \<and>
     result_frequencies r = [(CHR ''A'', 2), (CHR ''B'', 3), (CHR ''C'', 4)] \<and>
     map_get (result_codes r) (Some CHR ''A'') = Some cA \<and>
     map_get (result_codes r) (Some CHR ''B'') = Some cB \<and>
     map_get (result_codes r) (Some CHR ''C'') = Some cC \<and>
     length cC \<le> length cA \<and> length cC \<le> length cB \<and>
     originalBits r = 72 \<and> compressedBits r < originalBits r \<and> compressedBits r = 14 \<and>
     length (encoded r) = 14"
proof -
  have "compress ''AABBBCCCC'' this = compress ''AABBBCCCC'' new_HuffmanCoding"
    by (rule compress_fresh_state) simp
  then show ?thesis
    by (simp add: compress_AABBBCCCC)
qed

lemma compress_AAAA:
  "compress ''AAAA'' new_HuffmanCoding =
     Inr (Success
       \<lparr>original = ''AAAA'', encoded = ''0000'', originalBits = 32, compressedBits = 4,
          result_frequencies = [(CHR ''A'', 4)],
          result_codes = [(Some CHR ''A'', ''0'')],
          tree = Some (HuffmanNode (Some CHR ''A'') 4 None None)\<rparr>,
      \<lparr>root = Some (HuffmanNode (Some CHR ''A'') 4 None None),
         codes = [(Some CHR ''A'', ''0'')],
         frequencies = [(CHR ''A'', 4)]\<rparr>)"
  by code_simp

text \<open>
  Claim C2, evaluated. On \<open>AAAA\<close> the code table maps A to the one-bit string 0 and the
  encoded string has 4 bits, as claimed. Decoding those 4 bits against the tree just built
  does not return \<open>AAAA\<close>: the root is a leaf, the first bit makes the cursor \<open>null\<close>, and
  \<open>current.isLeaf()\<close> throws.
\<close>

theorem single_symbol_AAAA_decode_throws:
  "\<exists>r this'.
     compress ''AAAA'' this = Inr (Success r, this') \<and>
     result_codes r = [(Some CHR ''A'', ''0'')] \<and>
     encoded r = ''0000'' \<and> compressedBits r = 4 \<and>
     tree r = Some (HuffmanNode (Some CHR ''A'') 4 None None) \<and> root this' = tree r \<and>
     decode (encoded r) this' = Inl TypeError"
proof -
  have "compress ''AAAA'' this = compress ''AAAA'' new_HuffmanCoding"
    by (rule compress_fresh_state) simp
  then show ?thesis
    by (simp add: compress_AAAA decode_def isLeaf_def)
qed

text \<open>
  Claim C1, evaluated at the shortest input. \<open>compress\<close> of the one-symbol sequence \<open>A\<close>
  succeeds with the encoded string 0, and decoding that string against the tree of the same
  call throws instead of returning \<open>A\<close>. The round trip holds on every input with two
  or more distinct symbols (\<open>round_trip_two_symbols\<close>) and fails on every input with one
  (\<open>round_trip_fails_single_symbol\<close>), where the tree is a single leaf.
\<close>

theorem round_trip_fails_on_A:
  "compress ''A'' new_HuffmanCoding =
     Inr (Success
       \<lparr>original = ''A'', encoded = ''0'', originalBits = 8, compressedBits = 1,
          result_frequencies = [(CHR ''A'', 1)],
          result_codes = [(Some CHR ''A'', ''0'')],
          tree = Some (HuffmanNode (Some CHR ''A'') 1 None None)\<rparr>,
      \<lparr>root = Some (HuffmanNode (Some CHR ''A'') 1 None None),
         codes = [(Some CHR ''A'', ''0'')],
         frequencies = [(CHR ''A'', 1)]\<rparr>) \<and>
   decode ''0''
     \<lparr>root = Some (HuffmanNode (Some CHR ''A'') 1 None None),
        codes = [(Some CHR ''A'', ''0'')],
        frequencies = [(CHR ''A'', 1)]\<rparr> = Inl TypeError"
  by code_simp

subsection \<open>Encoder\<close>

text \<open>
  Claim C4, as the script has it. \<open>encode\<close> has no failure: for every input and code table
  it returns the concatenation, in input order, of what the table gives for each symbol,
  and a symbol without an entry contributes the nine characters \<open>undefined\<close>.
\<close>

theorem encode_concat:
  "encode data this =
     concat (map (\<lambda>c. case map_get (codes this) (Some c) of
                          None \<Rightarrow> ''undefined''
                        | Some code \<Rightarrow> code) data)"
  by (rule encode_eq_concat)

text \<open>
  Claim C4 as stated fails. With a table that knows A but not B, encoding \<open>AB\<close> returns
  a string and not a failure.
\<close>

theorem encode_unknown_symbol_counterexample:
  "encode ''AB'' \<lparr>root = None, codes = [(Some CHR ''A'', ''0'')], frequencies = []\<rparr>
     = ''0undefined''"
  by (simp add: encode_def)

subsection \<open>Decoder\<close>

lemma decode_loop_spec:
  "decode_loop rt bits cur acc =
     (case spec_decode_loop rt bits st cur acc of
        Inr s \<Rightarrow> Inr s
      | Inl MissingChild \<Rightarrow> Inl TypeError
      | Inl (EndsMidTraversal s) \<Rightarrow> Inr s)"
proof (induction bits arbitrary: cur acc st)
  case Nil
  show ?case by simp
next
  case (Cons b bits)
  show ?case
  proof (cases cur)
    case None
    then show ?thesis by simp
  next
    case (Some c)
    show ?thesis
    proof (cases "if b = CHR ''0'' then left c else right c")
      case None
      with Some show ?thesis by simp
    next
      case (Some child)
      show ?thesis
      proof (cases "isLeaf child")
        case True
        with \<open>cur = Some c\<close> Some Cons.IH [of rt _ AtRoot] show ?thesis by simp
      next
        case False
        with \<open>cur = Some c\<close> Some Cons.IH [of "Some child" acc Traversing] show ?thesis by simp
      qed
    qed
  qed
qed

text \<open>
  Claim C3, as the script has it. \<open>decode\<close> has no \<open>MalformedBitStream\<close> value. On a tree
  whose root is an internal node: where the specification's decoder succeeds, \<open>decode\<close>
  returns the same sequence; where a consumed bit requires a child that does not exist,
  \<open>decode\<close> throws a \<open>TypeError\<close>; where the bit string ends with the cursor below the
  root, \<open>decode\<close> returns the symbols emitted so far.
\<close>

theorem decode_against_spec:
  assumes "root this = Some rt" and "\<not> isLeaf rt"
  shows "decode bits this =
           (case spec_decode bits (root this) of
              Inr s \<Rightarrow> Inr s
            | Inl MissingChild \<Rightarrow> Inl TypeError
            | Inl (EndsMidTraversal s) \<Rightarrow> Inr s)"
  unfolding decode_def spec_decode_def by (rule decode_loop_spec)

theorem decode_against_spec_witness:
  "root \<lparr>root = Some (HuffmanNode None 2 (Some (HuffmanNode (Some CHR ''A'') 2 None None)) None),
          codes = [], frequencies = []\<rparr>
     = Some (HuffmanNode None 2 (Some (HuffmanNode (Some CHR ''A'') 2 None None)) None) \<and>
   \<not> isLeaf (HuffmanNode None 2 (Some (HuffmanNode (Some CHR ''A'') 2 None None)) None) \<and>
   spec_decode ''01''
     (Some (HuffmanNode None 2 (Some (HuffmanNode (Some CHR ''A'') 2 None None)) None))
     = Inl MissingChild \<and>
   decode ''01''
     \<lparr>root = Some (HuffmanNode None 2 (Some (HuffmanNode (Some CHR ''A'') 2 None None)) None),
        codes = [], frequencies = []\<rparr> = Inl TypeError"
  using decode_against_spec
    [of "\<lparr>root = Some (HuffmanNode None 2 (Some (HuffmanNode (Some CHR ''A'') 2 None None)) None),
            codes = [], frequencies = []\<rparr>"
        "HuffmanNode None 2 (Some (HuffmanNode (Some CHR ''A'') 2 None None)) None" "''01''"]
  by (simp add: spec_decode_def isLeaf_def)

text \<open>
  Claim C3 as stated fails. \<open>compress\<close> encodes \<open>AABBBCCCCA\<close> as 1010111111000010,
  ending with the two bits of A. With the last bit removed, \<open>decode\<close> against the tree of
  the same call returns the nine symbols before it, where the specification's decoder
  reports a malformed stream.
\<close>

theorem decode_truncated_counterexample:
  "compress ''AABBBCCCCA'' new_HuffmanCoding =
     Inr (Success
       \<lparr>original = ''AABBBCCCCA'', encoded = ''1010111111000010'',
          originalBits = 80, compressedBits = 16,
          result_frequencies = [(CHR ''A'', 3), (CHR ''B'', 3), (CHR ''C'', 4)],
          result_codes = [(Some CHR ''C'', ''0''), (Some CHR ''A'', ''10''), (Some CHR ''B'', ''11'')],
          tree = Some (HuffmanNode None 10
                   (Some (HuffmanNode (Some CHR ''C'') 4 None None))
                   (Some (HuffmanNode None 6
                     (Some (HuffmanNode (Some CHR ''A'') 3 None None))
                     (Some (HuffmanNode (Some CHR ''B'') 3 None None)))))\<rparr>,
      \<lparr>root = Some (HuffmanNode None 10
                   (Some (HuffmanNode (Some CHR ''C'') 4 None None))
                   (Some (HuffmanNode None 6
                     (Some (HuffmanNode (Some CHR ''A'') 3 None None))
                     (Some (HuffmanNode (Some CHR ''B'') 3 None None))))),
         codes = [(Some CHR ''C'', ''0''), (Some CHR ''A'', ''10''), (Some CHR ''B'', ''11'')],
         frequencies = [(CHR ''A'', 3), (CHR ''B'', 3), (CHR ''C'', 4)]\<rparr>) \<and>
   spec_decode ''101011111100001''
     (Some (HuffmanNode None 10
        (Some (HuffmanNode (Some CHR ''C'') 4 None None))
        (Some (HuffmanNode None 6
          (Some (HuffmanNode (Some CHR ''A'') 3 None None))
          (Some (HuffmanNode (Some CHR ''B'') 3 None None))))))
     = Inl (EndsMidTraversal ''AABBBCCCC'') \<and>
   decode ''101011111100001''
     \<lparr>root = Some (HuffmanNode None 10
                   (Some (HuffmanNode (Some CHR ''C'') 4 None None))
                   (Some (HuffmanNode None 6
                     (Some (HuffmanNode (Some CHR ''A'') 3 None None))
                     (Some (HuffmanNode (Some CHR ''B'') 3 None None))))),
        codes = [(Some CHR ''C'', ''0''), (Some CHR ''A'', ''10''), (Some CHR ''B'', ''11'')],
        frequencies = [(CHR ''A'', 3), (CHR ''B'', 3), (CHR ''C'', 4)]\<rparr>
     = Inr ''AABBBCCCC''"
  by code_simp

subsection \<open>Shape of the tree\<close>

text \<open>
  Claim C7. For an input with n distinct symbols, n at least 2, \<open>compress\<close> succeeds and
  its tree has exactly n leaves and n - 1 internal nodes; every internal node has a left
  and a right child whose weights add up to its own; the weights of the leaves add up to
  the length of the input.
\<close>

theorem tree_structure:
  assumes "2 \<le> card (set data)"
  shows "\<exists>r this' t.
           compress data this = Inr (Success r, this') \<and> tree r = Some t \<and>
           length (leaf_nodes t) = card (set data) \<and>
           length (internal_nodes t) = card (set data) - 1 \<and>
           (\<forall>n\<in>set (internal_nodes t).
              \<exists>l r. left n = Some l \<and> right n = Some r \<and>
                    frequency l + frequency r = frequency n) \<and>
           sum_list (map frequency (leaf_nodes t)) = length data"
proof -
  let ?fm = "fold count_step data []"
  from assms have "data \<noteq> []" by auto
  from compress_success [OF this, of this] obtain r this' t where
    c: "compress data this = Inr (Success r, this')" "tree r = Some t"
    and t: "proper t" "mset (leaf_nodes t) = mset (map new_leaf ?fm)"
    by blast
  have "size (mset (leaf_nodes t)) = size (mset (map new_leaf ?fm))"
    using t(2) by simp
  then have n: "length (leaf_nodes t) = card (set data)"
    by (simp add: frequency_map_facts)
  have i: "length (internal_nodes t) = card (set data) - 1"
    using proper_counts [OF t(1)] n by simp
  have "sum_list (map frequency (leaf_nodes t)) = sum_list (map frequency (map new_leaf ?fm))"
    using t(2) by (rule sum_list_map_mset_cong)
  also have "map frequency (map new_leaf ?fm) = map snd ?fm"
    by (simp add: new_leaf_def)
  finally have w: "sum_list (map frequency (leaf_nodes t)) = length data"
    by (simp add: frequency_map_facts)
  have p: "\<forall>n\<in>set (internal_nodes t).
              \<exists>l r. left n = Some l \<and> right n = Some r \<and> frequency l + frequency r = frequency n"
    using proper_internal [OF t(1)] by blast
  show ?thesis
    by (intro exI [of _ r] exI [of _ this'] exI [of _ t] conjI c n i w p)
qed

theorem tree_structure_witness:
  "2 \<le> card (set ''AABBBCCCC'') \<and>
   (\<exists>r this' t.
      compress ''AABBBCCCC'' new_HuffmanCoding = Inr (Success r, this') \<and> tree r = Some t \<and>
      length (leaf_nodes t) = 3 \<and> length (internal_nodes t) = 2 \<and>
      sum_list (map frequency (leaf_nodes t)) = 9)"
proof -
  have c: "card (set ''AABBBCCCC'') = 3"
    by simp
  then have h: "2 \<le> card (set ''AABBBCCCC'')"
    by simp
  from tree_structure [OF h, of new_HuffmanCoding] h show ?thesis
    unfolding c by auto
qed

subsection \<open>Prefix-freeness\<close>

text \<open>
  Claim C6. For every non-empty input \<open>compress\<close> succeeds, and in its code table the codes
  of two distinct symbols are never a prefix of one another.
\<close>

theorem prefix_free:
  assumes "data \<noteq> []"
  shows "\<exists>r this'.
           compress data this = Inr (Success r, this') \<and>
           (\<forall>k1 k2 c1 c2.
              k1 \<noteq> k2 \<longrightarrow>
              map_get (result_codes r) k1 = Some c1 \<longrightarrow>
              map_get (result_codes r) k2 = Some c2 \<longrightarrow>
              \<not> prefix c1 c2 \<and> \<not> prefix c2 c1)"
proof -
  from compress_success [OF assms, of this] obtain t r this' where
    c: "compress data this = Inr (Success r, this')"
    and g: "result_codes r = generateCodes (Some t) [] []"
    by blast
  have "\<not> prefix c1 c2 \<and> \<not> prefix c2 c1"
    if "k1 \<noteq> k2" "map_get (result_codes r) k1 = Some c1" "map_get (result_codes r) k2 = Some c2"
    for k1 k2 c1 c2
    using that generateCodes_prefix_free [of "Some t" k1 c1 k2 c2]
      generateCodes_prefix_free [of "Some t" k2 c2 k1 c1]
    unfolding g by auto
  with c show ?thesis
    by blast
qed

theorem prefix_free_witness:
  "''AABBBCCCC'' \<noteq> [] \<and>
   (\<exists>r this'.
      compress ''AABBBCCCC'' new_HuffmanCoding = Inr (Success r, this') \<and>
      Some CHR ''A'' \<noteq> Some CHR ''C'' \<and>
      map_get (result_codes r) (Some CHR ''A'') = Some ''10'' \<and>
      map_get (result_codes r) (Some CHR ''C'') = Some ''0'' \<and>
      \<not> prefix ''10'' ''0'' \<and> \<not> prefix ''0'' ''10'')"
  using prefix_free [of "''AABBBCCCC''" new_HuffmanCoding]
  by (simp add: compress_AABBBCCCC)

subsection \<open>The min-heap\<close>

text \<open>
  Claim C10. After any sequence of \<open>insert\<close> and \<open>extractMin\<close> calls on a new heap the
  array satisfies the heap ordering, and it holds exactly the elements inserted and not yet
  extracted. On a non-empty heap \<open>extractMin\<close> returns an element of the heap whose
  frequency is least among them, removes one copy of it and leaves a heap. On the empty
  heap \<open>extractMin\<close> returns \<open>null\<close>.
\<close>

theorem min_heap_invariant:
  "heap_ok fr (fst (run_ops fr ops ([], []))) \<and>
   mset (fst (run_ops fr ops ([], []))) + mset (snd (run_ops fr ops ([], []))) = mset (inserted ops) \<and>
   (fst (run_ops fr ops ([], [])) \<noteq> [] \<longrightarrow>
      (\<exists>m h'. extractMin fr (fst (run_ops fr ops ([], []))) = (Some m, h') \<and>
              m \<in> set (fst (run_ops fr ops ([], []))) \<and>
              (\<forall>x\<in>set (fst (run_ops fr ops ([], []))). fr m \<le> fr x) \<and>
              mset (fst (run_ops fr ops ([], []))) = add_mset m (mset h') \<and>
              heap_ok fr h')) \<and>
   extractMin fr [] = (None, [])"
proof -
  have ok: "heap_ok fr (fst (run_ops fr ops ([], [])))"
    and ms: "mset (fst (run_ops fr ops ([], []))) + mset (snd (run_ops fr ops ([], []))) = mset (inserted ops)"
    using run_ops_invariant [of fr "[]" ops "[]"] by simp_all
  show ?thesis
    using ok ms extractMin_least [OF ok] by simp
qed

theorem min_heap_invariant_witness:
  "fst (run_ops id [Insert 5, Insert 3, Insert 8, Insert 1, ExtractMin] ([], [])) = [3, 5, 8 :: nat] \<and>
   snd (run_ops id [Insert 5, Insert 3, Insert 8, Insert 1, ExtractMin] ([], [])) = [1] \<and>
   [3, 5, 8 :: nat] \<noteq> [] \<and>
   extractMin id [3, 5, 8 :: nat] = (Some 3, [5, 8]) \<and>
   (3 :: nat) \<in> set [3, 5, 8] \<and> id (3 :: nat) \<le> id 5 \<and> id (3 :: nat) \<le> id 8"
proof -
  have r: "run_ops id [Insert 5, Insert 3, Insert 8, Insert 1, ExtractMin] ([], []) = ([3, 5, 8 :: nat], [1])"
    by code_simp
  have e: "extractMin id [3, 5, 8 :: nat] = (Some 3, [5, 8])"
    by code_simp
  from min_heap_invariant [of id "[Insert 5, Insert 3, Insert 8, Insert 1, ExtractMin :: nat heap_op]"]
  show ?thesis
    unfolding r e by simp
qed

subsection \<open>Isolation between calls\<close>

text \<open>
  Claim C9. Take two successive successful calls of \<open>compress\<close> on one coder. In the
  store after the second call, the frequency map and the code map held by the first result
  have the contents they had after the first call, and so has the tree below the root held
  by the first result: no node that existed is changed. The maps of the second result are
  objects different from those of the first. The encoded bits of a result are a string, which
  no call can change.
\<close>

theorem cross_call_isolation:
  assumes "wf_state this0 s0"
    and "compress_st d1 this0 s0 = Some (Inr (Success_st r1, this1, s1))"
    and "compress_st d2 this1 s1 = Some (Inr (Success_st r2, this2, s2))"
  shows "freq_store s2 ! frequencies_at r1 = freq_store s1 ! frequencies_at r1 \<and>
         code_store s2 ! codes_at r1 = code_store s1 ! codes_at r1 \<and>
         (\<forall>a. tree_at r1 = Some a \<longrightarrow>
              read_tree (node_store s2) a = read_tree (node_store s1) a) \<and>
         prefix (node_store s1) (node_store s2) \<and>
         frequencies_at r2 \<noteq> frequencies_at r1 \<and> codes_at r2 \<noteq> codes_at r1"
proof -
  note f1 = compress_st_frame [OF assms(1,2)]
  note f2 = compress_st_frame [OF f1(2) assms(3)]
  have e: "extends this1 s1 s2" by (fact f2(1))
  have "frequencies_ref this1 < length (freq_store s0)"
    using assms(1) f1(4) by (simp add: wf_state_def)
  then have "frequencies_at r1 \<noteq> frequencies_ref this1"
    using f1(5) by simp
  with e f1(6) have F: "freq_store s2 ! frequencies_at r1 = freq_store s1 ! frequencies_at r1"
    by (simp add: extends_def)
  have "codes_ref this1 < length (code_store s0)"
    using assms(1) f1(3) by (simp add: wf_state_def)
  then have "codes_at r1 \<noteq> codes_ref this1"
    using f1(7) by simp
  with e f1(8) have C: "code_store s2 ! codes_at r1 = code_store s1 ! codes_at r1"
    by (simp add: extends_def)
  have p: "prefix (node_store s1) (node_store s2)"
    using e by (simp add: extends_def)
  have cl: "closed (node_store s1)"
    using f1(2) by (simp add: wf_state_def)
  have T: "read_tree (node_store s2) a = read_tree (node_store s1) a" if "tree_at r1 = Some a" for a
    using read_tree_prefix [OF cl p] f1(9) [OF that] by simp
  have "frequencies_at r2 \<noteq> frequencies_at r1" "codes_at r2 \<noteq> codes_at r1"
    using f1(6,8) f2(5,7) by simp_all
  with F C T p show ?thesis by simp
qed

theorem cross_call_isolation_witness:
  "freq_store example_store2 ! 1 = [(CHR ''A'', 2), (CHR ''B'', 3), (CHR ''C'', 4)] \<and>
   freq_store example_store2 ! 0 = [(CHR ''X'', 2), (CHR ''Y'', 1)] \<and>
   code_store example_store2 ! 1 =
     [(Some CHR ''C'', ''0''), (Some CHR ''A'', ''10''), (Some CHR ''B'', ''11'')] \<and>
   read_tree (node_store example_store2) 4 = read_tree (node_store example_store1) 4 \<and>
   read_tree (node_store example_store1) 4 =
     HuffmanNode None 9
       (Some (HuffmanNode (Some CHR ''C'') 4 None None))
       (Some (HuffmanNode None 5
         (Some (HuffmanNode (Some CHR ''A'') 2 None None))
         (Some (HuffmanNode (Some CHR ''B'') 3 None None))))"
proof -
  have t: "read_tree (node_store example_store1) 4 =
     HuffmanNode None 9
       (Some (HuffmanNode (Some CHR ''C'') 4 None None))
       (Some (HuffmanNode None 5
         (Some (HuffmanNode (Some CHR ''A'') 2 None None))
         (Some (HuffmanNode (Some CHR ''B'') 3 None None))))"
    unfolding example_store1_def example_nodes1_def by code_simp
  from cross_call_isolation [OF example_wf example_first_call example_second_call] t
  show ?thesis
    by (simp add: example_store1_def example_store2_def)
qed

end
